theory Spec2Isabelle
  imports Main "HOL-Library.Word" "HOL-Library.List_Lexorder" "HOL-Library.Multiset"
begin

section \<open>Stack items and the object store\<close>

text \<open>
  The VM's values are JavaScript objects. The scalar variants carry their payload; the
  container variants (\<open>ArrayType\<close>, \<open>StructType\<close>, \<open>MapType\<close>) wrap a JS array or a
  JS \<open>Map\<close>, which is shared by reference and may be reachable from itself. The model keeps
  those payloads in a store and lets a container item hold the address of its payload, so
  that sharing and cycles are values of the model. Every address denotes an object (a JS
  reference is never dangling), hence the store is a total function.
\<close>

type_synonym byte = "8 word"
type_synonym Buffer = "byte list"
type_synonym Long = "64 word"

datatype StackItem =
    ByteArrayType Buffer
  | BooleanType bool
  | IntegerType Long
  | ArrayType nat
  | StructType nat
  | MapType nat
  | InteropType nat

text \<open>
  A JS \<open>Map<StackItem, StackItem>\<close> is keyed by object identity and iterates in insertion
  order: it is the list of its entries, and the key objects of one Map are pairwise
  distinct objects, so a key object is named by its position in that list.
\<close>

record store =
  jsArrays :: "nat \<Rightarrow> StackItem list"
  jsMaps :: "nat \<Rightarrow> (StackItem \<times> StackItem) list"

text \<open>The keys of the guard's \<open>visited: Map<any, boolean>\<close>: a JS array or a JS Map.\<close>

datatype ref = ArrRef nat | MapRef nat

datatype error =
    CircularReference
  | InvalidKeyType
  | UnsupportMapKeyType
  | UnknownType
  | SizeLimitExceeded
  | MalformedEncoding
  | UnsupportedCoercion
  | TypeError
  | Rethrown string error

section \<open>The cycle and depth guard (runtime.ts, lines 282 to 351)\<close>

text \<open>
  \<open>MAX_STRUCT_DEPTH\<close> is imported from \<open>vm/types/struct\<close>, which is not among the
  sources: it is the parameter \<open>D\<close>. The function returns its result together with the
  \<open>visited\<close> map, which the source mutates in place; only entries set to \<open>true\<close> are ever
  stored, so the map is the set of its keys. \<open>detectionLoop\<close> is \<open>for (const v of a)\<close> and
  \<open>detectionLoopMap\<close> is \<open>for (const [k, v] of mp.entries())\<close>, both with the early return.
\<close>

function circularRefAndDepthDetectionInternal ::
    "nat \<Rightarrow> store \<Rightarrow> StackItem \<Rightarrow> ref set \<Rightarrow> nat \<Rightarrow> bool \<times> ref set"
  and detectionLoop ::
    "nat \<Rightarrow> store \<Rightarrow> StackItem list \<Rightarrow> ref set \<Rightarrow> nat \<Rightarrow> bool \<times> ref set"
  and detectionLoopMap ::
    "nat \<Rightarrow> store \<Rightarrow> (StackItem \<times> StackItem) list \<Rightarrow> ref set \<Rightarrow> nat \<Rightarrow> bool \<times> ref set"
where
  "circularRefAndDepthDetectionInternal D st val visited depth =
     (if depth > D then (True, visited)
      else case val of
        ArrayType a \<Rightarrow>
          (if length (jsArrays st a) = 0 then (False, visited)
           else if ArrRef a \<in> visited then (True, visited)
           else (case detectionLoop D st (jsArrays st a) (insert (ArrRef a) visited) (depth + 1) of
                   (r, vis) \<Rightarrow> if r then (True, vis) else (False, vis - {ArrRef a})))
      | StructType s \<Rightarrow>
          (if length (jsArrays st s) = 0 then (False, visited)
           else if ArrRef s \<in> visited then (True, visited)
           else (case detectionLoop D st (jsArrays st s) (insert (ArrRef s) visited) (depth + 1) of
                   (r, vis) \<Rightarrow> if r then (True, vis) else (False, vis - {ArrRef s})))
      | MapType m \<Rightarrow>
          (if MapRef m \<in> visited then (True, visited)
           else (case detectionLoopMap D st (jsMaps st m) (insert (MapRef m) visited) (depth + 1) of
                   (r, vis) \<Rightarrow> if r then (True, vis) else (False, vis - {MapRef m})))
      | _ \<Rightarrow> (False, visited))"
| "detectionLoop D st [] visited depth = (False, visited)"
| "detectionLoop D st (v # vs) visited depth =
     (case circularRefAndDepthDetectionInternal D st v visited depth of
        (r, vis) \<Rightarrow> if r then (True, vis) else detectionLoop D st vs vis depth)"
| "detectionLoopMap D st [] visited depth = (False, visited)"
| "detectionLoopMap D st ((k, v) # es) visited depth =
     (case circularRefAndDepthDetectionInternal D st k visited depth of
        (r, vis) \<Rightarrow>
          if r then (True, vis)
          else (case circularRefAndDepthDetectionInternal D st v vis depth of
                  (r', vis') \<Rightarrow> if r' then (True, vis') else detectionLoopMap D st es vis' depth))"
  by pat_completeness auto
termination
  by (relation "inv_image (less_than <*lex*> less_than)
        (\<lambda>x. case x of
           Inl (D, st, val, visited, depth) \<Rightarrow> (Suc D - depth, 0)
         | Inr (Inl (D, st, vs, visited, depth)) \<Rightarrow> (Suc D - depth, Suc (length vs))
         | Inr (Inr (D, st, es, visited, depth)) \<Rightarrow> (Suc D - depth, Suc (length es)))")
     auto

definition circularRefAndDepthDetection :: "nat \<Rightarrow> store \<Rightarrow> StackItem \<Rightarrow> bool" where
  "circularRefAndDepthDetection D st val = fst (circularRefAndDepthDetectionInternal D st val {} 0)"


section \<open>Byte-level primitives\<close>

text \<open>
  Modelled from the spec: the \<open>Writer\<close> and \<open>LimitedWriter\<close> classes (\<open>vm/utils/writer\<close>) and the
  \<open>Reader\<close> class (\<open>vm/utils/reader\<close>) are not among the sources. The spec (sections 4.3 and
  6) gives the contract: a size-limited writer whose writes fail with \<open>SizeLimitExceeded\<close>
  once the cumulative bytes exceed the cap, a reader whose reads fail with
  \<open>MalformedEncoding\<close> on underrun, \<open>varlen := varint length, then that many bytes\<close>,
  little-endian where multi-byte, and a zero length written as the one byte \<open>0x00\<close>. The
  varint is the prefix format of the wire protocol: a value below \<open>0xFD\<close> is one byte,
  otherwise a marker \<open>0xFD\<close>, \<open>0xFE\<close> or \<open>0xFF\<close> and 2, 4 or 8 little-endian bytes. The
  cap \<open>MAX_BYTEARRAY_SIZE\<close> (\<open>vm/consts\<close>, not among the sources) is the parameter \<open>S\<close>.
  A writer is the bytes written so far, a reader the bytes not yet read.
\<close>

type_synonym Writer = Buffer
type_synonym Reader = Buffer

primrec leBytes :: "nat \<Rightarrow> nat \<Rightarrow> Buffer" where
  "leBytes 0 n = []"
| "leBytes (Suc k) n = of_nat (n mod 256) # leBytes k (n div 256)"

primrec fromLeBytes :: "Buffer \<Rightarrow> nat" where
  "fromLeBytes [] = 0"
| "fromLeBytes (b # bs) = unat b + 256 * fromLeBytes bs"

definition varUint :: "nat \<Rightarrow> Buffer" where
  "varUint n =
     (if n < 0xFD then [of_nat n]
      else if n \<le> 0xFFFF then 0xFD # leBytes 2 n
      else if n \<le> 0xFFFFFFFF then 0xFE # leBytes 4 n
      else 0xFF # leBytes 8 n)"

definition writeBytes :: "nat \<Rightarrow> Writer \<Rightarrow> Buffer \<Rightarrow> error + Writer" where
  "writeBytes S w bs = (if length w + length bs > S then Inl SizeLimitExceeded else Inr (w @ bs))"

definition bindE :: "error + 'a \<Rightarrow> ('a \<Rightarrow> error + 'b) \<Rightarrow> error + 'b" where
  "bindE r f = (case r of Inl e \<Rightarrow> Inl e | Inr x \<Rightarrow> f x)"

definition writeUint8 :: "nat \<Rightarrow> Writer \<Rightarrow> byte \<Rightarrow> error + Writer" where
  "writeUint8 S w b = writeBytes S w [b]"

definition writeVarUint :: "nat \<Rightarrow> Writer \<Rightarrow> nat \<Rightarrow> error + Writer" where
  "writeVarUint S w n = writeBytes S w (varUint n)"

definition writeVarBytes :: "nat \<Rightarrow> Writer \<Rightarrow> Buffer \<Rightarrow> error + Writer" where
  "writeVarBytes S w bs = bindE (writeVarUint S w (length bs)) (\<lambda>w'. writeBytes S w' bs)"

definition readByte :: "Reader \<Rightarrow> error + byte \<times> Reader" where
  "readByte r = (case r of [] \<Rightarrow> Inl MalformedEncoding | b # r' \<Rightarrow> Inr (b, r'))"

definition readBytes :: "nat \<Rightarrow> Reader \<Rightarrow> error + Buffer \<times> Reader" where
  "readBytes n r = (if length r < n then Inl MalformedEncoding else Inr (take n r, drop n r))"

definition readVarUInt :: "Reader \<Rightarrow> error + nat \<times> Reader" where
  "readVarUInt r =
     bindE (readByte r) (\<lambda>(b, r1).
       if b = 0xFD then bindE (readBytes 2 r1) (\<lambda>(bs, r2). Inr (fromLeBytes bs, r2))
       else if b = 0xFE then bindE (readBytes 4 r1) (\<lambda>(bs, r2). Inr (fromLeBytes bs, r2))
       else if b = 0xFF then bindE (readBytes 8 r1) (\<lambda>(bs, r2). Inr (fromLeBytes bs, r2))
       else Inr (unat b, r1))"

definition readVarBytes :: "Reader \<Rightarrow> error + Buffer \<times> Reader" where
  "readVarBytes r = bindE (readVarUInt r) (\<lambda>(n, r1). readBytes n r1)"

text \<open>
  Modelled from the spec: \<open>bigIntToBytes\<close> (\<open>common/utils\<close>) is not among the sources.
  Section 4.1: the minimal two's-complement little-endian encoding, empty for zero.
\<close>

function encodeInt :: "int \<Rightarrow> Buffer" where
  "encodeInt v =
     (if - 128 \<le> v \<and> v < 128 then [word_of_int v]
      else word_of_int v # encodeInt (v div 256))"
  by pat_completeness auto
termination
  by (relation "measure (\<lambda>v. nat \<bar>v\<bar>)") auto

definition bigIntToBytes :: "Long \<Rightarrow> Buffer" where
  "bigIntToBytes v = (if v = 0 then [] else encodeInt (sint v))"

text \<open>
  Modelled from the spec: \<open>Reader.readInt64\<close> is not among the sources. Section 4.4: the
  Integer branch reads length-prefixed bytes as a signed 64-bit integer and fails if the
  byte length exceeds 8. The bytes are the little-endian two's complement that
  \<open>bigIntToBytes\<close> writes.
\<close>

fun decodeInt :: "Buffer \<Rightarrow> int" where
  "decodeInt [] = 0"
| "decodeInt [b] = sint b"
| "decodeInt (b # bs) = uint b + 256 * decodeInt bs"

definition readInt64 :: "Reader \<Rightarrow> error + Long \<times> Reader" where
  "readInt64 r =
     bindE (readVarBytes r) (\<lambda>(b, r1).
       if length b > 8 then Inl MalformedEncoding else Inr (word_of_int (decodeInt b), r1))"

section \<open>JavaScript strings\<close>

text \<open>
  \<open>ba.toString()\<close> on a Node \<open>Buffer\<close> decodes the bytes as UTF-8, each ill-formed sequence
  becoming U+FFFD, into a JS string: a sequence of UTF-16 code units. \<open>utf8Decode\<close> is the
  decoder of the Encoding Standard (state: continuation bytes still needed, the code
  point so far, the bounds of the next continuation byte); a byte that breaks a sequence
  is read again as the start of the next one. \<open>unsortKey.sort()\<close> with no comparator
  orders strings by their code units, which is the lexicographic order of the lists.
\<close>

type_synonym JSString = "16 word list"

definition utf8Lead :: "byte \<Rightarrow> nat list \<times> nat \<times> nat \<times> nat \<times> nat" where
  "utf8Lead b =
     (let x = unat b in
      if x \<le> 0x7F then ([x], 0, 0, 0x80, 0xBF)
      else if 0xC2 \<le> x \<and> x \<le> 0xDF then ([], 1, x mod 32, 0x80, 0xBF)
      else if 0xE0 \<le> x \<and> x \<le> 0xEF then
        ([], 2, x mod 16, (if x = 0xE0 then 0xA0 else 0x80), (if x = 0xED then 0x9F else 0xBF))
      else if 0xF0 \<le> x \<and> x \<le> 0xF4 then
        ([], 3, x mod 8, (if x = 0xF0 then 0x90 else 0x80), (if x = 0xF4 then 0x8F else 0xBF))
      else ([0xFFFD], 0, 0, 0x80, 0xBF))"

fun utf8Decode :: "nat \<Rightarrow> nat \<Rightarrow> nat \<Rightarrow> nat \<Rightarrow> Buffer \<Rightarrow> nat list" where
  "utf8Decode need cp lo hi [] = (if need = 0 then [] else [0xFFFD])"
| "utf8Decode need cp lo hi (b # bs) =
     (if need = 0 then
        (case utf8Lead b of (out, need', cp', lo', hi') \<Rightarrow> out @ utf8Decode need' cp' lo' hi' bs)
      else if unat b < lo \<or> hi < unat b then
        (case utf8Lead b of (out, need', cp', lo', hi') \<Rightarrow>
           0xFFFD # out @ utf8Decode need' cp' lo' hi' bs)
      else if need = 1 then (cp * 64 + unat b mod 64) # utf8Decode 0 0 0x80 0xBF bs
      else utf8Decode (need - 1) (cp * 64 + unat b mod 64) 0x80 0xBF bs)"

definition utf16Units :: "nat \<Rightarrow> JSString" where
  "utf16Units cp =
     (if cp < 0x10000 then [of_nat cp]
      else [of_nat (0xD800 + (cp - 0x10000) div 1024), of_nat (0xDC00 + (cp - 0x10000) mod 1024)])"

definition toString :: "Buffer \<Rightarrow> JSString" where
  "toString ba = concat (map utf16Units (utf8Decode 0 0 0x80 0xBF ba))"


section \<open>Equality of the scalar variants (boolean.ts lines 15 to 28, part_000 lines 16 to 32)\<close>

text \<open>
  \<open>other\<close> is any \<open>StackItem\<close>; the accessors of the classes that are not among the sources
  are the parameters \<open>getBigInteger\<close> and \<open>getByteArray\<close> (what the call on \<open>other\<close> returns or
  throws). \<open>same\<close> is \<open>this === other\<close>, and \<open>None\<close> is \<open>undefined\<close>: calling a method on it
  throws a \<open>TypeError\<close>, which \<open>BooleanType.equals\<close> catches like any other exception.
\<close>

definition IntegerType_getByteArray :: "Long \<Rightarrow> Buffer" where
  "IntegerType_getByteArray v = bigIntToBytes v"

definition BooleanType_getByteArray :: "bool \<Rightarrow> Buffer" where
  "BooleanType_getByteArray v = [if v then 1 else 0]"

definition IntegerType_equals ::
    "('o \<Rightarrow> error + Long) \<Rightarrow> ('o \<Rightarrow> error + Buffer) \<Rightarrow> Long \<Rightarrow> bool \<Rightarrow> 'o option \<Rightarrow> error + bool" where
  "IntegerType_equals getBigInteger getByteArray this same other =
     (if same then Inr True
      else case other of
        None \<Rightarrow> Inr False
      | Some x \<Rightarrow>
          (case getBigInteger x of
             Inr v \<Rightarrow> Inr (this = v)
           | Inl e \<Rightarrow> bindE (getByteArray x) (\<lambda>b. Inr (b = IntegerType_getByteArray this))))"

definition BooleanType_equals ::
    "('o \<Rightarrow> error + Buffer) \<Rightarrow> bool \<Rightarrow> bool \<Rightarrow> 'o option \<Rightarrow> error + bool" where
  "BooleanType_equals getByteArray this same other =
     (if same then Inr True
      else case other of
        None \<Rightarrow> Inr False
      | Some x \<Rightarrow>
          (case getByteArray x of
             Inl e \<Rightarrow> Inr False
           | Inr b \<Rightarrow> Inr (BooleanType_getByteArray this = b)))"

section \<open>The serializer (runtime.ts, lines 102 to 211)\<close>

text \<open>
  The serializer recurses through the store, so on a cyclic value it would not return.
  The model bounds the depth of the recursion by a fuel argument: \<open>None\<close> means that the
  call did not return within that depth, \<open>Some (Inl e)\<close> that it threw, \<open>Some (Inr w)\<close> that
  it returned with the writer holding \<open>w\<close>. \<open>rethrow\<close> is \<open>catch (e) { throw new Error(...) }\<close>.
  The type tags of \<open>ByteArrayType\<close>, \<open>ArrayType\<close>, \<open>StructType\<close> and \<open>MapType\<close> are static
  fields of classes that are not among the sources; they are taken from the table in
  section 3 of the spec (\<open>0x00\<close>, \<open>0x80\<close>, \<open>0x81\<close>, \<open>0x82\<close>).
\<close>

definition andThen :: "(error + 'a) option \<Rightarrow> ('a \<Rightarrow> (error + 'b) option) \<Rightarrow> (error + 'b) option" where
  "andThen r f = (case r of None \<Rightarrow> None | Some (Inl e) \<Rightarrow> Some (Inl e) | Some (Inr x) \<Rightarrow> f x)"

definition rethrow :: "string \<Rightarrow> (error + 'a) option \<Rightarrow> (error + 'a) option" where
  "rethrow msg r = (case r of Some (Inl e) \<Rightarrow> Some (Inl (Rethrown msg e)) | _ \<Rightarrow> r)"

definition keyString :: "StackItem \<Rightarrow> JSString" where
  "keyString k =
     (case k of
        ByteArrayType ba \<Rightarrow> toString ba
      | IntegerType v \<Rightarrow> toString (IntegerType_getByteArray v)
      | _ \<Rightarrow> [])"

definition isKeyType :: "StackItem \<Rightarrow> bool" where
  "isKeyType k = (case k of ByteArrayType ba \<Rightarrow> True | IntegerType v \<Rightarrow> True | _ \<Rightarrow> False)"

text \<open>
  The first loop of the Map branch (lines 183 to 195). \<open>i\<close> is the position of the key
  object \<open>k\<close> in the Map, which is what \<open>keyMap.set(key, k)\<close> stores.
\<close>

fun collectKeys ::
    "(StackItem \<times> StackItem) list \<Rightarrow> nat \<Rightarrow> JSString list \<Rightarrow> (JSString \<rightharpoonup> nat) \<Rightarrow>
     error + JSString list \<times> (JSString \<rightharpoonup> nat)" where
  "collectKeys [] i unsortKey keyMap = Inr (unsortKey, keyMap)"
| "collectKeys ((k, v) # es) i unsortKey keyMap =
     (if isKeyType k then
        (let key = keyString k in
         if key = [] then Inl InvalidKeyType
         else collectKeys es (Suc i) (unsortKey @ [key]) (keyMap(key \<mapsto> i)))
      else Inl UnsupportMapKeyType)"

function (sequential) serializeStackItemInternal ::
    "nat \<Rightarrow> nat \<Rightarrow> store \<Rightarrow> StackItem \<Rightarrow> Writer \<Rightarrow> (error + Writer) option"
  and serializeLoop ::
    "nat \<Rightarrow> nat \<Rightarrow> store \<Rightarrow> StackItem list \<Rightarrow> Writer \<Rightarrow> (error + Writer) option"
  and serializeEntries ::
    "nat \<Rightarrow> nat \<Rightarrow> store \<Rightarrow> (StackItem \<times> StackItem) list \<Rightarrow> (JSString \<rightharpoonup> nat) \<Rightarrow>
     JSString list \<Rightarrow> Writer \<Rightarrow> (error + Writer) option"
where
  "serializeStackItemInternal S 0 st item w = None"
| "serializeStackItemInternal S (Suc n) st item w =
     (case item of
        ByteArrayType ba \<Rightarrow>
          rethrow ''Serialize ByteArray stackItems error''
            (Some (bindE (writeUint8 S w 0x00) (\<lambda>w1. writeVarBytes S w1 ba)))
      | BooleanType b \<Rightarrow>
          rethrow ''Serialize Boolean stackItems error''
            (Some (bindE (writeUint8 S w 0x01) (\<lambda>w1. writeUint8 S w1 (if b then 1 else 0))))
      | IntegerType v \<Rightarrow>
          rethrow ''Serialize Integer stackItems error''
            (Some (bindE (writeUint8 S w 0x02) (\<lambda>w1. writeVarBytes S w1 (IntegerType_getByteArray v))))
      | ArrayType a \<Rightarrow>
          rethrow ''Serialize Array stackItems error''
            (andThen (Some (bindE (writeUint8 S w 0x80)
                        (\<lambda>w1. writeVarUint S w1 (length (jsArrays st a)))))
               (\<lambda>w2. serializeLoop S n st (jsArrays st a) w2))
      | StructType a \<Rightarrow>
          rethrow ''Serialize Struct stackItems error''
            (andThen (Some (bindE (writeUint8 S w 0x81)
                        (\<lambda>w1. writeVarUint S w1 (length (jsArrays st a)))))
               (\<lambda>w2. serializeLoop S n st (jsArrays st a) w2))
      | MapType m \<Rightarrow>
          andThen
            (rethrow ''Serialize Struct stackItems error''
               (Some (bindE (writeUint8 S w 0x82)
                  (\<lambda>w1. bindE (writeVarUint S w1 (length (jsMaps st m)))
                  (\<lambda>w2. bindE (collectKeys (jsMaps st m) 0 [] Map.empty)
                  (\<lambda>(unsortKey, keyMap). Inr (w2, unsortKey, keyMap)))))))
            (\<lambda>(w2, unsortKey, keyMap).
               serializeEntries S n st (jsMaps st m) keyMap (sort unsortKey) w2)
      | InteropType h \<Rightarrow> Some (Inl UnknownType))"
| "serializeLoop S n st [] w = Some (Inr w)"
| "serializeLoop S n st (v # vs) w =
     andThen (serializeStackItemInternal S n st v w) (\<lambda>w'. serializeLoop S n st vs w')"
| "serializeEntries S n st mp keyMap [] w = Some (Inr w)"
| "serializeEntries S n st mp keyMap (v # vs) w =
     (case keyMap v of
        None \<Rightarrow> Some (Inl TypeError)
      | Some i \<Rightarrow>
          if i < length mp then
            andThen (serializeStackItemInternal S n st (fst (mp ! i)) w)
              (\<lambda>w1. andThen (serializeStackItemInternal S n st (snd (mp ! i)) w1)
              (\<lambda>w2. serializeEntries S n st mp keyMap vs w2))
          else Some (Inl TypeError))"
  by pat_completeness auto
termination
  by (relation "inv_image (less_than <*lex*> less_than)
        (\<lambda>x. case x of
           Inl (S, n, st, item, w) \<Rightarrow> (n, 0)
         | Inr (Inl (S, n, st, vs, w)) \<Rightarrow> (n, Suc (length vs))
         | Inr (Inr (S, n, st, mp, keyMap, vs, w)) \<Rightarrow> (n, Suc (length vs)))")
     auto

definition serializeStackItem ::
    "nat \<Rightarrow> nat \<Rightarrow> nat \<Rightarrow> store \<Rightarrow> StackItem \<Rightarrow> (error + Buffer) option" where
  "serializeStackItem D S fuel st item =
     (if circularRefAndDepthDetection D st item then Some (Inl CircularReference)
      else serializeStackItemInternal S fuel st item [])"

section \<open>The deserializer (runtime.ts, lines 113 to 117 and 213 to 280)\<close>

text \<open>
  Every object the deserializer returns is created by \<open>new\<close> during the call and referenced
  once: its result is a tree, and the model returns it as one. The entries of a decoded
  Map are in the order of the \<open>m.set(key, value)\<close> calls; each key is a new object, so each
  call adds an entry. The fuel bounds the depth of the recursion as for the serializer;
  the source keeps no depth counter of its own.
\<close>

datatype Val =
    VByteArray Buffer
  | VBoolean bool
  | VInteger Long
  | VArray "Val list"
  | VStruct "Val list"
  | VMap "(Val \<times> Val) list"

function (sequential) deserializeStackItemInternal :: "nat \<Rightarrow> Reader \<Rightarrow> (error + Val \<times> Reader) option"
  and deserializeLoop :: "nat \<Rightarrow> nat \<Rightarrow> Reader \<Rightarrow> Val list \<Rightarrow> (error + Val list \<times> Reader) option"
  and deserializeLoopMap ::
    "nat \<Rightarrow> nat \<Rightarrow> Reader \<Rightarrow> (Val \<times> Val) list \<Rightarrow> (error + (Val \<times> Val) list \<times> Reader) option"
where
  "deserializeStackItemInternal 0 r = None"
| "deserializeStackItemInternal (Suc n) r =
     rethrow ''Deserialize error''
       (case readByte r of
          Inl e \<Rightarrow> Some (Inl e)
        | Inr (t, r1) \<Rightarrow>
            if t = 0x00 then
              rethrow ''Deserialize stackItems ByteArray error''
                (Some (bindE (readVarBytes r1) (\<lambda>(b, r2). Inr (VByteArray b, r2))))
            else if t = 0x01 then
              rethrow ''Deserialize stackItems Boolean error''
                (Some (bindE (readByte r1) (\<lambda>(b, r2). Inr (VBoolean (b > 0), r2))))
            else if t = 0x02 then
              rethrow ''Deserialize stackItems Integer error''
                (Some (bindE (readInt64 r1) (\<lambda>(b, r2). Inr (VInteger b, r2))))
            else if t = 0x80 \<or> t = 0x81 then
              rethrow ''Deserialize stackItems error''
                (andThen (Some (readVarUInt r1))
                   (\<lambda>(count, r2). andThen (deserializeLoop n count r2 [])
                   (\<lambda>(arr, r3). Some (Inr (if t = 0x81 then VStruct arr else VArray arr, r3)))))
            else if t = 0x82 then
              rethrow ''Deserialize stackItems map error''
                (andThen (Some (readVarUInt r1))
                   (\<lambda>(count, r2). andThen (deserializeLoopMap n count r2 [])
                   (\<lambda>(m, r3). Some (Inr (VMap m, r3)))))
            else Some (Inl UnknownType))"
| "deserializeLoop n 0 r arr = Some (Inr (arr, r))"
| "deserializeLoop n (Suc c) r arr =
     andThen (deserializeStackItemInternal n r) (\<lambda>(item, r'). deserializeLoop n c r' (arr @ [item]))"
| "deserializeLoopMap n 0 r m = Some (Inr (m, r))"
| "deserializeLoopMap n (Suc c) r m =
     andThen (deserializeStackItemInternal n r)
       (\<lambda>(key, r'). andThen (deserializeStackItemInternal n r')
       (\<lambda>(val, r''). deserializeLoopMap n c r'' (m @ [(key, val)])))"
  by pat_completeness auto
termination
  by (relation "inv_image (less_than <*lex*> less_than)
        (\<lambda>x. case x of
           Inl (n, r) \<Rightarrow> (n, 0)
         | Inr (Inl (n, c, r, arr)) \<Rightarrow> (n, Suc c)
         | Inr (Inr (n, c, r, m)) \<Rightarrow> (n, Suc c))")
     auto

definition deserializeStackItem :: "nat \<Rightarrow> Buffer \<Rightarrow> (error + Val) option" where
  "deserializeStackItem fuel data =
     andThen (deserializeStackItemInternal fuel data) (\<lambda>(item, r). Some (Inr item))"


text \<open>
  The string form of an entry's key, the test both branches of the key loop make on a
  key, the writes that open the Map branch (the tag and the count, inside the \<open>try\<close>),
  and the serialization of a list of entries key-then-value in list order.
\<close>

definition entryKey :: "StackItem \<times> StackItem \<Rightarrow> JSString" where
  "entryKey e = keyString (fst e)"

definition validKey :: "StackItem \<Rightarrow> bool" where
  "validKey k \<longleftrightarrow> isKeyType k \<and> keyString k \<noteq> []"

primrec serializePairs ::
    "nat \<Rightarrow> nat \<Rightarrow> store \<Rightarrow> (StackItem \<times> StackItem) list \<Rightarrow> Writer \<Rightarrow> (error + Writer) option" where
  "serializePairs S n st [] w = Some (Inr w)"
| "serializePairs S n st (e # es) w =
     andThen (serializeStackItemInternal S n st (fst e) w)
       (\<lambda>w1. andThen (serializeStackItemInternal S n st (snd e) w1)
       (\<lambda>w2. serializePairs S n st es w2))"

definition mapHeader :: "nat \<Rightarrow> Writer \<Rightarrow> nat \<Rightarrow> (error + Writer) option" where
  "mapHeader S w cnt =
     rethrow ''Serialize Struct stackItems error''
       (Some (bindE (writeUint8 S w 0x82) (\<lambda>w1. writeVarUint S w1 cnt)))"

section \<open>Notions the claims are stated with\<close>

text \<open>
  \<open>child st v x\<close>: \<open>x\<close> is an element of the container \<open>v\<close> (an element of an Array or
  Struct, a key or a value of a Map). \<open>withinDepth st k v\<close>: no item lies more than \<open>k\<close>
  containers below \<open>v\<close>; a value that is within some depth has no cycle.
\<close>

inductive child :: "store \<Rightarrow> StackItem \<Rightarrow> StackItem \<Rightarrow> bool" for st :: store where
  child_Array: "x \<in> set (jsArrays st a) \<Longrightarrow> child st (ArrayType a) x"
| child_Struct: "x \<in> set (jsArrays st a) \<Longrightarrow> child st (StructType a) x"
| child_MapKey: "(k, v) \<in> set (jsMaps st m) \<Longrightarrow> child st (MapType m) k"
| child_MapValue: "(k, v) \<in> set (jsMaps st m) \<Longrightarrow> child st (MapType m) v"

fun withinDepth :: "store \<Rightarrow> nat \<Rightarrow> StackItem \<Rightarrow> bool" where
  "withinDepth st 0 v =
     (case v of
        ArrayType a \<Rightarrow> jsArrays st a = []
      | StructType a \<Rightarrow> jsArrays st a = []
      | MapType m \<Rightarrow> jsMaps st m = []
      | _ \<Rightarrow> True)"
| "withinDepth st (Suc k) v =
     (case v of
        ArrayType a \<Rightarrow> (\<forall>x \<in> set (jsArrays st a). withinDepth st k x)
      | StructType a \<Rightarrow> (\<forall>x \<in> set (jsArrays st a). withinDepth st k x)
      | MapType m \<Rightarrow> (\<forall>e \<in> set (jsMaps st m). withinDepth st k (fst e) \<and> withinDepth st k (snd e))
      | _ \<Rightarrow> True)"

definition refWithin :: "store \<Rightarrow> nat \<Rightarrow> ref \<Rightarrow> bool" where
  "refWithin st k r =
     (case r of ArrRef a \<Rightarrow> withinDepth st k (ArrayType a) | MapRef m \<Rightarrow> withinDepth st k (MapType m))"

text \<open>
  A chain of \<open>n\<close> nested Arrays around the item \<open>leaf\<close>: the array at address \<open>i < n\<close> holds
  the one element \<open>chainItem n leaf (i + 1)\<close>, and \<open>chainItem n leaf n\<close> is the leaf.
\<close>

definition chainItem :: "nat \<Rightarrow> StackItem \<Rightarrow> nat \<Rightarrow> StackItem" where
  "chainItem n leaf i = (if i < n then ArrayType i else leaf)"

definition chainStore :: "nat \<Rightarrow> StackItem \<Rightarrow> store" where
  "chainStore n leaf =
     \<lparr> jsArrays = (\<lambda>i. if i < n then [chainItem n leaf (Suc i)] else []),
       jsMaps = (\<lambda>m. []) \<rparr>"

definition emptyStore :: store where
  "emptyStore = \<lparr> jsArrays = (\<lambda>a. []), jsMaps = (\<lambda>m. []) \<rparr>"


text \<open>
  The wire format of section 6 of the spec, as a function of the value written:
  \<open>value := tag payload\<close>, a length-prefixed payload for ByteArray and Integer, one byte
  for Boolean, a count and the encoded elements for Array and Struct, a count and the
  encoded key and value of each entry for Map. \<open>depthVal\<close> is the number of nested
  decoder calls a value needs, \<open>wfVal\<close> says that every length fits the 64-bit varint.
\<close>

fun wire :: "Val \<Rightarrow> Buffer" where
  "wire (VByteArray b) = 0x00 # varUint (length b) @ b"
| "wire (VBoolean b) = [0x01, if b then 1 else 0]"
| "wire (VInteger v) = 0x02 # varUint (length (bigIntToBytes v)) @ bigIntToBytes v"
| "wire (VArray ts) = 0x80 # varUint (length ts) @ concat (map wire ts)"
| "wire (VStruct ts) = 0x81 # varUint (length ts) @ concat (map wire ts)"
| "wire (VMap es) = 0x82 # varUint (length es) @ concat (map (\<lambda>(k, v). wire k @ wire v) es)"

fun depthVal :: "Val \<Rightarrow> nat" where
  "depthVal (VArray ts) = Suc (Max (insert 0 (depthVal ` set ts)))"
| "depthVal (VStruct ts) = Suc (Max (insert 0 (depthVal ` set ts)))"
| "depthVal (VMap es) = Suc (Max (insert 0 ((\<lambda>(k, v). max (depthVal k) (depthVal v)) ` set es)))"
| "depthVal v = 1"

fun wfVal :: "Val \<Rightarrow> bool" where
  "wfVal (VByteArray b) = (length b < 2 ^ 64)"
| "wfVal (VArray ts) = (length ts < 2 ^ 64 \<and> (\<forall>t \<in> set ts. wfVal t))"
| "wfVal (VStruct ts) = (length ts < 2 ^ 64 \<and> (\<forall>t \<in> set ts. wfVal t))"
| "wfVal (VMap es) = (length es < 2 ^ 64 \<and> (\<forall>(k, v) \<in> set es. wfVal k \<and> wfVal v))"
| "wfVal v = True"

text \<open>
  \<open>treeOf st v\<close> is the value \<open>v\<close> denotes in the store, unfolded into a tree with the
  entries of each Map in insertion order (\<open>None\<close> when the unfolding is deeper than the
  fuel or reaches an Interop item). \<open>canonical\<close> puts the entries of every Map in
  ascending order of the string form of their keys and changes nothing else.
\<close>

definition pairOption :: "'a option \<Rightarrow> 'b option \<Rightarrow> ('a \<times> 'b) option" where
  "pairOption x y = (case x of None \<Rightarrow> None | Some a \<Rightarrow> (case y of None \<Rightarrow> None | Some b \<Rightarrow> Some (a, b)))"

fun treeOf :: "nat \<Rightarrow> store \<Rightarrow> StackItem \<Rightarrow> Val option" where
  "treeOf 0 st item = None"
| "treeOf (Suc n) st item =
     (case item of
        ByteArrayType ba \<Rightarrow> Some (VByteArray ba)
      | BooleanType b \<Rightarrow> Some (VBoolean b)
      | IntegerType v \<Rightarrow> Some (VInteger v)
      | ArrayType a \<Rightarrow> map_option VArray (those (map (treeOf n st) (jsArrays st a)))
      | StructType a \<Rightarrow> map_option VStruct (those (map (treeOf n st) (jsArrays st a)))
      | MapType m \<Rightarrow>
          map_option VMap
            (those (map (\<lambda>e. pairOption (treeOf n st (fst e)) (treeOf n st (snd e))) (jsMaps st m)))
      | InteropType h \<Rightarrow> None)"

definition valKeyString :: "Val \<Rightarrow> JSString" where
  "valKeyString k =
     (case k of
        VByteArray ba \<Rightarrow> toString ba
      | VInteger v \<Rightarrow> toString (IntegerType_getByteArray v)
      | _ \<Rightarrow> [])"

fun canonical :: "Val \<Rightarrow> Val" where
  "canonical (VArray ts) = VArray (map canonical ts)"
| "canonical (VStruct ts) = VStruct (map canonical ts)"
| "canonical (VMap es) =
     VMap (sort_key (\<lambda>e. valKeyString (fst e)) (map (\<lambda>(k, v). (canonical k, canonical v)) es))"
| "canonical v = v"

text \<open>
  Conditions on the keys of every Map reachable from a value: each key is a ByteArray or
  an Integer with a non-empty string form (\<open>validKeys\<close>), and the string forms of the keys
  of one Map are pairwise distinct (\<open>distinctKeys\<close>). \<open>noInterop\<close>: no Interop item is
  reachable from the value.
\<close>

definition validKeys :: "store \<Rightarrow> StackItem \<Rightarrow> bool" where
  "validKeys st v \<longleftrightarrow>
     (\<forall>m. rtranclp (child st) v (MapType m) \<longrightarrow> (\<forall>e \<in> set (jsMaps st m). validKey (fst e)))"

definition distinctKeys :: "store \<Rightarrow> StackItem \<Rightarrow> bool" where
  "distinctKeys st v \<longleftrightarrow>
     (\<forall>m. rtranclp (child st) v (MapType m) \<longrightarrow> distinct (map entryKey (jsMaps st m)))"

definition noInterop :: "store \<Rightarrow> StackItem \<Rightarrow> bool" where
  "noInterop st v \<longleftrightarrow> (\<forall>h. \<not> rtranclp (child st) v (InteropType h))"

text \<open>
  \<open>emitted st item\<close> is the value whose wire format the serializer writes for \<open>item\<close> when
  no write hits the size limit: it follows the serializer's own steps, the Map branch
  included (the key loop, the sort of the key strings, the lookups through \<open>keyMap\<close>).
\<close>

definition emitEntry ::
    "(StackItem \<Rightarrow> Val option) \<Rightarrow> (StackItem \<times> StackItem) list \<Rightarrow> (JSString \<rightharpoonup> nat) \<Rightarrow>
     JSString \<Rightarrow> (Val \<times> Val) option" where
  "emitEntry emit mp keyMap s =
     (case keyMap s of
        None \<Rightarrow> None
      | Some i \<Rightarrow>
          if i < length mp then pairOption (emit (fst (mp ! i))) (emit (snd (mp ! i)))
          else None)"

fun emitted :: "nat \<Rightarrow> store \<Rightarrow> StackItem \<Rightarrow> Val option" where
  "emitted 0 st item = None"
| "emitted (Suc n) st item =
     (case item of
        ByteArrayType ba \<Rightarrow> Some (VByteArray ba)
      | BooleanType b \<Rightarrow> Some (VBoolean b)
      | IntegerType v \<Rightarrow> Some (VInteger v)
      | ArrayType a \<Rightarrow> map_option VArray (those (map (emitted n st) (jsArrays st a)))
      | StructType a \<Rightarrow> map_option VStruct (those (map (emitted n st) (jsArrays st a)))
      | MapType m \<Rightarrow>
          (case collectKeys (jsMaps st m) 0 [] Map.empty of
             Inl e \<Rightarrow> None
           | Inr (unsortKey, keyMap) \<Rightarrow>
               map_option VMap
                 (those (map (emitEntry (emitted n st) (jsMaps st m) keyMap) (sort unsortKey))))
      | InteropType h \<Rightarrow> None)"

definition serializes :: "nat \<Rightarrow> nat \<Rightarrow> store \<Rightarrow> bool" where
  "serializes S n st \<longleftrightarrow>
     (\<forall>item w w'. length w \<le> S \<longrightarrow>
        (serializeStackItemInternal S n st item w = Some (Inr w') \<longleftrightarrow>
           (\<exists>t. emitted n st item = Some t \<and> w' = w @ wire t \<and> length w' \<le> S)))"

text \<open>The encoding of \<open>n + 1\<close> nested Arrays, the innermost empty, and the value it denotes.\<close>

primrec nestedBytes :: "nat \<Rightarrow> Buffer" where
  "nestedBytes 0 = [0x80, 0x00]"
| "nestedBytes (Suc n) = 0x80 # 0x01 # nestedBytes n"

primrec nestedVal :: "nat \<Rightarrow> Val" where
  "nestedVal 0 = VArray []"
| "nestedVal (Suc n) = VArray [nestedVal n]"

text \<open>
  \<open>n\<close> Arrays of one element each around the value \<open>t\<close>, and the value of an item that
  holds nothing: a scalar, or an Array, Struct or Map with no element.
\<close>

primrec wrapVal :: "nat \<Rightarrow> Val \<Rightarrow> Val" where
  "wrapVal 0 t = t"
| "wrapVal (Suc n) t = VArray [wrapVal n t]"

definition leafVal :: "store \<Rightarrow> StackItem \<Rightarrow> Val option" where
  "leafVal st item =
     (case item of
        ByteArrayType ba \<Rightarrow> Some (VByteArray ba)
      | BooleanType b \<Rightarrow> Some (VBoolean b)
      | IntegerType v \<Rightarrow> Some (VInteger v)
      | ArrayType a \<Rightarrow> (if jsArrays st a = [] then Some (VArray []) else None)
      | StructType a \<Rightarrow> (if jsArrays st a = [] then Some (VStruct []) else None)
      | MapType m \<Rightarrow> (if jsMaps st m = [] then Some (VMap []) else None)
      | InteropType h \<Rightarrow> None)"

text \<open>Stores used as concrete inputs.\<close>

definition selfStore :: store where
  "selfStore = \<lparr> jsArrays = (\<lambda>a. if a = 0 then [ArrayType 0] else []), jsMaps = (\<lambda>m. []) \<rparr>"

definition sharedStore :: store where
  "sharedStore =
     \<lparr> jsArrays = (\<lambda>a. if a = 0 then [ArrayType 1, ArrayType 1]
                        else if a = 1 then [IntegerType 1] else []),
       jsMaps = (\<lambda>m. []) \<rparr>"

definition collidingStore :: store where
  "collidingStore =
     \<lparr> jsArrays = (\<lambda>a. []),
       jsMaps = (\<lambda>m. if m = 0 then [(ByteArrayType [0xFF], IntegerType 1),
                                       (ByteArrayType [0xFE], IntegerType 2)]
                       else if m = 1 then [(ByteArrayType [0xFE], IntegerType 2),
                                            (ByteArrayType [0xFF], IntegerType 1)]
                       else []) \<rparr>"

definition orderStore :: store where
  "orderStore =
     \<lparr> jsArrays = (\<lambda>a. []),
       jsMaps = (\<lambda>m. if m = 0 then [(ByteArrayType [0xEE, 0x80, 0x80], IntegerType 1),
                                       (ByteArrayType [0xF0, 0x90, 0x80, 0x80], IntegerType 2)]
                       else []) \<rparr>"

definition abStore :: store where
  "abStore =
     \<lparr> jsArrays = (\<lambda>a. []),
       jsMaps = (\<lambda>m. if m = 0 then [(ByteArrayType [0x62], IntegerType 2),
                                       (ByteArrayType [0x61], IntegerType 1)]
                       else if m = 1 then [(ByteArrayType [0x61], IntegerType 1),
                                            (ByteArrayType [0x62], IntegerType 2)]
                       else []) \<rparr>"


definition zeroKeyStore :: store where
  "zeroKeyStore =
     \<lparr> jsArrays = (\<lambda>a. []),
       jsMaps = (\<lambda>m. if m = 0 then [(IntegerType 0, IntegerType 1)] else []) \<rparr>"

section \<open>Properties of the cycle and depth guard\<close>

declare circularRefAndDepthDetectionInternal.simps [simp del]

lemma detection_too_deep:
  "D < depth \<Longrightarrow> circularRefAndDepthDetectionInternal D st v V depth = (True, V)"
  by (subst circularRefAndDepthDetectionInternal.simps) simp

lemma detectionLoop_too_deep:
  "D < depth \<Longrightarrow> xs \<noteq> [] \<Longrightarrow> fst (detectionLoop D st xs V depth)"
  by (cases xs) (simp_all add: detection_too_deep)

lemma detectionLoopMap_too_deep:
  "D < depth \<Longrightarrow> es \<noteq> [] \<Longrightarrow> fst (detectionLoopMap D st es V depth)"
  by (cases es) (auto simp: detection_too_deep)

lemma detectionLoop_false_elem:
  "\<not> fst (detectionLoop D st xs V d) \<Longrightarrow> x \<in> set xs \<Longrightarrow>
   \<exists>V'. \<not> fst (circularRefAndDepthDetectionInternal D st x V' d)"
proof (induction xs arbitrary: V)
  case Nil
  then show ?case by simp
next
  case (Cons y ys)
  obtain r vis where c: "circularRefAndDepthDetectionInternal D st y V d = (r, vis)"
    by (cases "circularRefAndDepthDetectionInternal D st y V d")
  with Cons.prems(1) have r: "\<not> r" and rest: "\<not> fst (detectionLoop D st ys vis d)"
    by (auto split: if_splits)
  show ?case
  proof (cases "x = y")
    case True
    with c r have "\<not> fst (circularRefAndDepthDetectionInternal D st x V d)" by simp
    then show ?thesis ..
  next
    case False
    with Cons.prems(2) have "x \<in> set ys" by simp
    from Cons.IH [OF rest this] show ?thesis .
  qed
qed

lemma detectionLoopMap_false_elem:
  "\<not> fst (detectionLoopMap D st es V d) \<Longrightarrow> e \<in> set es \<Longrightarrow>
   (\<exists>V'. \<not> fst (circularRefAndDepthDetectionInternal D st (fst e) V' d)) \<and>
   (\<exists>V'. \<not> fst (circularRefAndDepthDetectionInternal D st (snd e) V' d))"
proof (induction es arbitrary: V)
  case Nil
  then show ?case by simp
next
  case (Cons y ys)
  obtain k v where y: "y = (k, v)" by (cases y)
  obtain r vis where c: "circularRefAndDepthDetectionInternal D st k V d = (r, vis)"
    by (cases "circularRefAndDepthDetectionInternal D st k V d")
  obtain r' vis' where c': "circularRefAndDepthDetectionInternal D st v vis d = (r', vis')"
    by (cases "circularRefAndDepthDetectionInternal D st v vis d")
  from Cons.prems(1) y c c'
  have r: "\<not> r" "\<not> r'" and rest: "\<not> fst (detectionLoopMap D st ys vis' d)"
    by (auto split: if_splits)
  show ?case
  proof (cases "e = y")
    case True
    from c r have "\<not> fst (circularRefAndDepthDetectionInternal D st k V d)" by simp
    moreover from c' r have "\<not> fst (circularRefAndDepthDetectionInternal D st v vis d)" by simp
    ultimately show ?thesis unfolding True y by auto
  next
    case False
    with Cons.prems(2) have "e \<in> set ys" by simp
    from Cons.IH [OF rest this] show ?thesis .
  qed
qed

lemma detection_Array:
  "\<not> D < d \<Longrightarrow> jsArrays st a \<noteq> [] \<Longrightarrow> ArrRef a \<notin> V \<Longrightarrow>
   circularRefAndDepthDetectionInternal D st (ArrayType a) V d =
     (case detectionLoop D st (jsArrays st a) (insert (ArrRef a) V) (d + 1) of
        (r, vis) \<Rightarrow> if r then (True, vis) else (False, vis - {ArrRef a}))"
  by (subst circularRefAndDepthDetectionInternal.simps) simp

lemma detection_Struct:
  "\<not> D < d \<Longrightarrow> jsArrays st a \<noteq> [] \<Longrightarrow> ArrRef a \<notin> V \<Longrightarrow>
   circularRefAndDepthDetectionInternal D st (StructType a) V d =
     (case detectionLoop D st (jsArrays st a) (insert (ArrRef a) V) (d + 1) of
        (r, vis) \<Rightarrow> if r then (True, vis) else (False, vis - {ArrRef a}))"
  by (subst circularRefAndDepthDetectionInternal.simps) simp

lemma detection_Map:
  "\<not> D < d \<Longrightarrow> MapRef m \<notin> V \<Longrightarrow>
   circularRefAndDepthDetectionInternal D st (MapType m) V d =
     (case detectionLoopMap D st (jsMaps st m) (insert (MapRef m) V) (d + 1) of
        (r, vis) \<Rightarrow> if r then (True, vis) else (False, vis - {MapRef m}))"
  by (subst circularRefAndDepthDetectionInternal.simps) simp

lemma detection_open:
  "ArrRef a \<in> V \<Longrightarrow> jsArrays st a \<noteq> [] \<Longrightarrow>
     fst (circularRefAndDepthDetectionInternal D st (ArrayType a) V d)"
  "ArrRef a \<in> V \<Longrightarrow> jsArrays st a \<noteq> [] \<Longrightarrow>
     fst (circularRefAndDepthDetectionInternal D st (StructType a) V d)"
  "MapRef m \<in> V \<Longrightarrow> fst (circularRefAndDepthDetectionInternal D st (MapType m) V d)"
  by (subst circularRefAndDepthDetectionInternal.simps, simp)+

lemma detection_false_children:
  assumes "\<not> fst (circularRefAndDepthDetectionInternal D st v V d)" and "child st v x"
  shows "\<exists>V'. \<not> fst (circularRefAndDepthDetectionInternal D st x V' (d + 1))"
proof -
  from assms(1) have dle: "\<not> D < d" by (auto simp: detection_too_deep)
  from assms(2) show ?thesis
  proof cases
    case (child_Array a)
    then have ne: "jsArrays st a \<noteq> []" by auto
    with assms(1) child_Array have nv: "ArrRef a \<notin> V" using detection_open(1) by blast
    from assms(1) have "\<not> fst (detectionLoop D st (jsArrays st a) (insert (ArrRef a) V) (d + 1))"
      unfolding child_Array(1) detection_Array [OF dle ne nv] by (auto split: prod.splits if_splits)
    from detectionLoop_false_elem [OF this child_Array(2)] show ?thesis .
  next
    case (child_Struct a)
    then have ne: "jsArrays st a \<noteq> []" by auto
    with assms(1) child_Struct have nv: "ArrRef a \<notin> V" using detection_open(2) by blast
    from assms(1) have "\<not> fst (detectionLoop D st (jsArrays st a) (insert (ArrRef a) V) (d + 1))"
      unfolding child_Struct(1) detection_Struct [OF dle ne nv] by (auto split: prod.splits if_splits)
    from detectionLoop_false_elem [OF this child_Struct(2)] show ?thesis .
  next
    case (child_MapKey v' m)
    with assms(1) have nv: "MapRef m \<notin> V" using detection_open(3) by blast
    from assms(1) have "\<not> fst (detectionLoopMap D st (jsMaps st m) (insert (MapRef m) V) (d + 1))"
      unfolding child_MapKey(1) detection_Map [OF dle nv] by (auto split: prod.splits if_splits)
    from detectionLoopMap_false_elem [OF this child_MapKey(2)] show ?thesis by simp
  next
    case (child_MapValue k' m)
    with assms(1) have nv: "MapRef m \<notin> V" using detection_open(3) by blast
    from assms(1) have "\<not> fst (detectionLoopMap D st (jsMaps st m) (insert (MapRef m) V) (d + 1))"
      unfolding child_MapValue(1) detection_Map [OF dle nv] by (auto split: prod.splits if_splits)
    from detectionLoopMap_false_elem [OF this child_MapValue(2)] show ?thesis by simp
  qed
qed

lemma withinDepth_children:
  "withinDepth st (Suc k) v \<longleftrightarrow> (\<forall>x. child st v x \<longrightarrow> withinDepth st k x)"
  by (cases v) (auto simp: child.simps)

lemma withinDepth_0:
  "withinDepth st 0 v \<longleftrightarrow> (\<forall>x. \<not> child st v x)"
proof (cases v)
  case (ArrayType a)
  then show ?thesis by (cases "jsArrays st a") (auto simp: child.simps)
next
  case (StructType a)
  then show ?thesis by (cases "jsArrays st a") (auto simp: child.simps)
next
  case (MapType m)
  then show ?thesis by (cases "jsMaps st m") (auto simp: child.simps)
qed (auto simp: child.simps)

lemma detection_false_within:
  "\<not> fst (circularRefAndDepthDetectionInternal D st v V d) \<Longrightarrow> withinDepth st (D - d) v"
proof (induction "D - d" arbitrary: v V d)
  case 0
  from "0.prems" have dle: "\<not> D < d" by (auto simp: detection_too_deep)
  with "0.hyps" have deep: "D < d + 1" by simp
  have "\<not> child st v x" for x
    using detection_false_children [OF "0.prems", of x] detection_too_deep [OF deep] by auto
  then have "withinDepth st 0 v" by (simp only: withinDepth_0) simp
  with "0.hyps" show ?case by simp
next
  case (Suc k)
  then have dk: "k = D - (d + 1)" by simp
  have "withinDepth st k x" if "child st v x" for x
    using detection_false_children [OF Suc.prems that] Suc.hyps(1) [OF dk] dk by blast
  then have "withinDepth st (Suc k) v" by (simp only: withinDepth_children) simp
  with Suc.hyps(2) show ?case by simp
qed


declare withinDepth.simps [simp del]

lemma withinDepth_Suc: "withinDepth st k v \<Longrightarrow> withinDepth st (Suc k) v"
proof (induction k arbitrary: v)
  case 0
  then have "\<forall>x. \<not> child st v x" using withinDepth_0 [of st v] by blast
  then show ?case by (auto intro: withinDepth_children [THEN iffD2])
next
  case (Suc k)
  from Suc.prems have "\<forall>x. child st v x \<longrightarrow> withinDepth st k x"
    using withinDepth_children [of st k v] by blast
  with Suc.IH have "\<forall>x. child st v x \<longrightarrow> withinDepth st (Suc k) x" by blast
  then show ?case by (rule withinDepth_children [THEN iffD2])
qed

lemma withinDepth_mono: "withinDepth st j v \<Longrightarrow> j \<le> k \<Longrightarrow> withinDepth st k v"
  by (induction k) (auto simp: le_Suc_eq withinDepth_Suc)

lemma withinDepth_Struct_Array: "withinDepth st k (StructType a) = withinDepth st k (ArrayType a)"
  by (cases k) (simp_all add: withinDepth.simps)

lemma refWithin_Suc: "refWithin st k r \<Longrightarrow> refWithin st (Suc k) r"
  by (cases r) (simp_all add: refWithin_def withinDepth_Suc)

lemma detectionLoop_all_false:
  "(\<And>x. x \<in> set xs \<Longrightarrow> circularRefAndDepthDetectionInternal D st x V d = (False, V)) \<Longrightarrow>
   detectionLoop D st xs V d = (False, V)"
  by (induction xs) simp_all

lemma detectionLoopMap_all_false:
  "(\<And>e. e \<in> set es \<Longrightarrow> circularRefAndDepthDetectionInternal D st (fst e) V d = (False, V) \<and>
       circularRefAndDepthDetectionInternal D st (snd e) V d = (False, V)) \<Longrightarrow>
   detectionLoopMap D st es V d = (False, V)"
proof (induction es)
  case Nil
  then show ?case by simp
next
  case (Cons e es)
  obtain k v where e: "e = (k, v)" by (cases e)
  from Cons.prems [of e] e
  have "circularRefAndDepthDetectionInternal D st k V d = (False, V)"
    and "circularRefAndDepthDetectionInternal D st v V d = (False, V)" by simp_all
  moreover have "detectionLoopMap D st es V d = (False, V)"
    using Cons.IH Cons.prems by simp
  ultimately show ?case unfolding e by simp
qed

lemma detection_leaf:
  assumes "\<not> D < d" and "withinDepth st 0 v" and "\<forall>r \<in> V. \<not> refWithin st 0 r"
  shows "circularRefAndDepthDetectionInternal D st v V d = (False, V)"
proof (cases v)
  case (MapType m)
  with assms(2) have e: "jsMaps st m = []" by (simp add: withinDepth.simps)
  with assms(3) have "MapRef m \<notin> V" by (auto simp: refWithin_def withinDepth.simps)
  then show ?thesis unfolding MapType detection_Map [OF assms(1) \<open>MapRef m \<notin> V\<close>] e by simp
qed (use assms(1,2) in \<open>simp_all add: circularRefAndDepthDetectionInternal.simps withinDepth.simps\<close>)

lemma within_detection_false:
  "withinDepth st k v \<Longrightarrow> d + k \<le> D \<Longrightarrow> \<forall>r \<in> V. \<not> refWithin st k r \<Longrightarrow>
   circularRefAndDepthDetectionInternal D st v V d = (False, V)"
proof (induction k arbitrary: v V d)
  case 0
  then show ?case using detection_leaf [of D d st v V] by simp
next
  case (Suc k)
  have lower: "\<not> refWithin st k r" if "r \<in> V" for r
    using Suc.prems(3) that refWithin_Suc [of st k r] by blast
  show ?case
  proof (cases "withinDepth st k v")
    case True
    have "d + k \<le> D" using Suc.prems(2) by simp
    moreover have "\<forall>r \<in> V. \<not> refWithin st k r" using lower by blast
    ultimately show ?thesis by (rule Suc.IH [OF True])
  next
    case False
    from Suc.prems(2) have dle: "\<not> D < d" and dk: "d + 1 + k \<le> D" by simp_all
    have kids: "withinDepth st k x" if "child st v x" for x
      using Suc.prems(1) that withinDepth_children [of st k v] by blast
    from False have "\<not> withinDepth st 0 v" using withinDepth_mono [of st 0 v k] by auto
    then obtain y where y: "child st v y" using withinDepth_0 [of st v] by blast
    then show ?thesis
    proof cases
      case (child_Array a)
      then have ne: "jsArrays st a \<noteq> []" by auto
      from Suc.prems(1,3) child_Array(1) have nv: "ArrRef a \<notin> V" by (auto simp: refWithin_def)
      let ?V = "insert (ArrRef a) V"
      have V': "\<forall>r \<in> ?V. \<not> refWithin st k r"
        using lower False child_Array(1) by (auto simp: refWithin_def)
      have "circularRefAndDepthDetectionInternal D st x ?V (d + 1) = (False, ?V)"
        if "x \<in> set (jsArrays st a)" for x
      proof -
        from that have "child st v x" unfolding child_Array(1) by (rule child.intros)
        then show ?thesis by (rule Suc.IH [OF kids dk V'])
      qed
      then have "detectionLoop D st (jsArrays st a) ?V (d + 1) = (False, ?V)"
        by (rule detectionLoop_all_false)
      then show ?thesis unfolding child_Array(1) detection_Array [OF dle ne nv] using nv by simp
    next
      case (child_Struct a)
      then have ne: "jsArrays st a \<noteq> []" by auto
      from Suc.prems(1,3) child_Struct(1) have nv: "ArrRef a \<notin> V"
        by (auto simp: refWithin_def withinDepth_Struct_Array)
      let ?V = "insert (ArrRef a) V"
      have V': "\<forall>r \<in> ?V. \<not> refWithin st k r"
        using lower False child_Struct(1) by (auto simp: refWithin_def withinDepth_Struct_Array)
      have "circularRefAndDepthDetectionInternal D st x ?V (d + 1) = (False, ?V)"
        if "x \<in> set (jsArrays st a)" for x
      proof -
        from that have "child st v x" unfolding child_Struct(1) by (rule child.intros)
        then show ?thesis by (rule Suc.IH [OF kids dk V'])
      qed
      then have "detectionLoop D st (jsArrays st a) ?V (d + 1) = (False, ?V)"
        by (rule detectionLoop_all_false)
      then show ?thesis unfolding child_Struct(1) detection_Struct [OF dle ne nv] using nv by simp
    next
      case (child_MapKey v' m)
      from Suc.prems(1,3) child_MapKey(1) have nv: "MapRef m \<notin> V" by (auto simp: refWithin_def)
      let ?V = "insert (MapRef m) V"
      have V': "\<forall>r \<in> ?V. \<not> refWithin st k r"
        using lower False child_MapKey(1) by (auto simp: refWithin_def)
      have "circularRefAndDepthDetectionInternal D st (fst e) ?V (d + 1) = (False, ?V) \<and>
            circularRefAndDepthDetectionInternal D st (snd e) ?V (d + 1) = (False, ?V)"
        if "e \<in> set (jsMaps st m)" for e
      proof -
        obtain k' v'' where e: "e = (k', v'')" by (cases e)
        from that have "child st v k'" "child st v v''"
          unfolding child_MapKey(1) e by (rule child.intros)+
        then show ?thesis unfolding e fst_conv snd_conv
          using Suc.IH [OF kids dk V'] by blast
      qed
      then have "detectionLoopMap D st (jsMaps st m) ?V (d + 1) = (False, ?V)"
        by (rule detectionLoopMap_all_false)
      then show ?thesis unfolding child_MapKey(1) detection_Map [OF dle nv] using nv by simp
    next
      case (child_MapValue k' m)
      from Suc.prems(1,3) child_MapValue(1) have nv: "MapRef m \<notin> V" by (auto simp: refWithin_def)
      let ?V = "insert (MapRef m) V"
      have V': "\<forall>r \<in> ?V. \<not> refWithin st k r"
        using lower False child_MapValue(1) by (auto simp: refWithin_def)
      have "circularRefAndDepthDetectionInternal D st (fst e) ?V (d + 1) = (False, ?V) \<and>
            circularRefAndDepthDetectionInternal D st (snd e) ?V (d + 1) = (False, ?V)"
        if "e \<in> set (jsMaps st m)" for e
      proof -
        obtain k' v'' where e: "e = (k', v'')" by (cases e)
        from that have "child st v k'" "child st v v''"
          unfolding child_MapValue(1) e by (rule child.intros)+
        then show ?thesis unfolding e fst_conv snd_conv
          using Suc.IH [OF kids dk V'] by blast
      qed
      then have "detectionLoopMap D st (jsMaps st m) ?V (d + 1) = (False, ?V)"
        by (rule detectionLoopMap_all_false)
      then show ?thesis unfolding child_MapValue(1) detection_Map [OF dle nv] using nv by simp
    qed
  qed
qed

lemma detection_iff_within:
  "circularRefAndDepthDetection D st v \<longleftrightarrow> \<not> withinDepth st D v"
  using detection_false_within [of D st v "{}" 0] within_detection_false [of st D v 0 D "{}"]
  by (auto simp: circularRefAndDepthDetection_def)

lemma withinDepth_child:
  "withinDepth st k v \<Longrightarrow> child st v x \<Longrightarrow> \<exists>j. k = Suc j \<and> withinDepth st j x"
  using withinDepth_0 [of st v] withinDepth_children [of st _ v] by (cases k) auto

lemma withinDepth_descendant:
  "tranclp (child st) v x \<Longrightarrow> withinDepth st k v \<Longrightarrow> \<exists>j<k. withinDepth st j x"
proof (induction arbitrary: k rule: tranclp_induct)
  case (base y)
  from withinDepth_child [OF base(2) base(1)] show ?case by auto
next
  case (step y z)
  from step.IH [OF step.prems] obtain j where j: "j < k" "withinDepth st j y" by blast
  from withinDepth_child [OF j(2) step.hyps(2)] obtain i where "j = Suc i" "withinDepth st i z"
    by blast
  with j(1) have "i < k" "withinDepth st i z" by simp_all
  then show ?case by blast
qed

lemma cyclic_not_withinDepth:
  "tranclp (child st) v v \<Longrightarrow> \<not> withinDepth st k v"
proof (induction k rule: less_induct)
  case (less k)
  show ?case
  proof
    assume "withinDepth st k v"
    from withinDepth_descendant [OF less.prems this] obtain j where "j < k" "withinDepth st j v"
      by blast
    with less.IH [OF _ less.prems] show False by blast
  qed
qed

text \<open>
  C6. A value that is its own descendant through Array, Struct and Map containers is
  rejected: the guard, a total function, returns true on it, and \<open>serializeStackItem\<close>
  throws the circular-reference error whatever depth of recursion it is allowed, without
  entering the recursive serializer. In particular this holds for every Array that
  contains itself at any depth.
\<close>

theorem serialize_rejects_cyclic_array:
  assumes "tranclp (child st) (ArrayType a) (ArrayType a)"
  shows "circularRefAndDepthDetection D st (ArrayType a) \<and>
         serializeStackItem D S fuel st (ArrayType a) = Some (Inl CircularReference)"
  using cyclic_not_withinDepth [OF assms, of D]
  by (simp add: detection_iff_within serializeStackItem_def)

theorem serialize_rejects_cyclic_array_witness:
  "tranclp (child selfStore) (ArrayType 0) (ArrayType 0) \<and>
   circularRefAndDepthDetection 10 selfStore (ArrayType 0) \<and>
   serializeStackItem 10 1048576 0 selfStore (ArrayType 0) = Some (Inl CircularReference)"
proof -
  have "child selfStore (ArrayType 0) (ArrayType 0)"
    by (rule child_Array) (simp add: selfStore_def)
  then have c: "tranclp (child selfStore) (ArrayType 0) (ArrayType 0)" ..
  from c serialize_rejects_cyclic_array [OF c, of 10 1048576 0] show ?thesis by simp
qed

text \<open>
  C9. The guard keeps in \<open>visited\<close> only the containers open on the current path: on a
  value with no cycle and no item deeper than \<open>MAX_STRUCT_DEPTH\<close> it returns false and
  hands back the set it was given, every container having been removed again when its
  subtree was done. A container shared by sibling branches is such a value.
\<close>

theorem guard_accepts_shared_acyclic:
  assumes "withinDepth st D v"
  shows "circularRefAndDepthDetectionInternal D st v {} 0 = (False, {}) \<and>
         \<not> circularRefAndDepthDetection D st v"
  using within_detection_false [OF assms, of 0 D "{}"] assms
  by (simp add: detection_iff_within)

theorem guard_accepts_shared_acyclic_witness:
  "withinDepth sharedStore 2 (ArrayType 0) \<and>
   jsArrays sharedStore 0 = [ArrayType 1, ArrayType 1] \<and>
   circularRefAndDepthDetectionInternal 2 sharedStore (ArrayType 0) {} 0 = (False, {}) \<and>
   \<not> circularRefAndDepthDetection 2 sharedStore (ArrayType 0)"
proof -
  have w: "withinDepth sharedStore 2 (ArrayType 0)"
    by (simp add: numeral_2_eq_2 withinDepth.simps sharedStore_def)
  from w guard_accepts_shared_acyclic [OF w] show ?thesis by (simp add: sharedStore_def)
qed


text \<open>
  C8, as the code has it. The depth check is the first statement of the guard and runs
  for every value: beyond \<open>MAX_STRUCT_DEPTH\<close> the guard returns true, for an empty
  container as for any other value. At a depth within the limit an empty Array or Struct
  returns false before the open-set check (also when its array is in the set), while the
  Map branch has no emptiness test: an empty Map is looked up in the open set, entered
  and removed again.
\<close>

theorem guard_empty_container:
  "(D < d \<longrightarrow> circularRefAndDepthDetectionInternal D st v V d = (True, V)) \<and>
   (d \<le> D \<and> jsArrays st a = [] \<longrightarrow>
      circularRefAndDepthDetectionInternal D st (ArrayType a) V d = (False, V) \<and>
      circularRefAndDepthDetectionInternal D st (StructType a) V d = (False, V)) \<and>
   (d \<le> D \<and> jsMaps st m = [] \<longrightarrow>
      circularRefAndDepthDetectionInternal D st (MapType m) V d =
        (if MapRef m \<in> V then (True, V) else (False, V)))"
  by (auto simp: detection_too_deep circularRefAndDepthDetectionInternal.simps)

theorem guard_empty_container_witness:
  "circularRefAndDepthDetectionInternal 10 emptyStore (ArrayType 0) {ArrRef 0} 11 = (True, {ArrRef 0}) \<and>
   (10::nat) \<le> 10 \<and> jsArrays emptyStore 0 = [] \<and> jsMaps emptyStore 0 = [] \<and>
   circularRefAndDepthDetectionInternal 10 emptyStore (ArrayType 0) {ArrRef 0} 10 = (False, {ArrRef 0}) \<and>
   circularRefAndDepthDetectionInternal 10 emptyStore (StructType 0) {ArrRef 0} 10 = (False, {ArrRef 0}) \<and>
   circularRefAndDepthDetectionInternal 10 emptyStore (MapType 0) {MapRef 0} 10 = (True, {MapRef 0}) \<and>
   circularRefAndDepthDetectionInternal 10 emptyStore (MapType 0) {} 10 = (False, {})"
  using guard_empty_container [of 10 11 emptyStore "ArrayType 0" "{ArrRef 0}" 0 0]
    guard_empty_container [of 10 10 emptyStore "ArrayType 0" "{ArrRef 0}" 0 0]
    guard_empty_container [of 10 10 emptyStore "ArrayType 0" "{MapRef 0}" 0 0]
    guard_empty_container [of 10 10 emptyStore "ArrayType 0" "{}" 0 0]
  by (simp add: emptyStore_def)

theorem guard_empty_container_counterexample:
  "jsArrays (chainStore 2 (ArrayType 2)) 2 = [] \<and>
   circularRefAndDepthDetectionInternal 1 (chainStore 2 (ArrayType 2)) (ArrayType 2) {} 2 = (True, {}) \<and>
   circularRefAndDepthDetection 1 (chainStore 2 (ArrayType 2)) (ArrayType 0)"
  by (simp add: chainStore_def chainItem_def circularRefAndDepthDetection_def
      circularRefAndDepthDetectionInternal.simps)

section \<open>Equality of Integer and Boolean items\<close>

text \<open>
  C10. \<open>IntegerType.equals\<close> asks \<open>other\<close> for its big integer first and, when that
  succeeds, compares numerically; only when it throws are the byte arrays of the two
  sides compared. \<open>BooleanType.equals\<close> has no numeric comparison (the model's function
  does not even take the \<open>getBigInteger\<close> accessor): it compares the byte arrays, and a
  failing coercion, or an undefined \<open>other\<close>, yields false, never an error.
\<close>

theorem scalar_equals:
  "(getBigInteger x = Inr n \<longrightarrow>
      IntegerType_equals getBigInteger getByteArray i False (Some x) = Inr (i = n)) \<and>
   (getBigInteger x = Inl e \<and> getByteArray x = Inr b \<longrightarrow>
      IntegerType_equals getBigInteger getByteArray i False (Some x) =
        Inr (b = IntegerType_getByteArray i)) \<and>
   (getByteArray x = Inr b \<longrightarrow>
      BooleanType_equals getByteArray t False (Some x) = Inr (BooleanType_getByteArray t = b)) \<and>
   (getByteArray x = Inl e \<longrightarrow> BooleanType_equals getByteArray t False (Some x) = Inr False) \<and>
   BooleanType_equals getByteArray t False None = Inr False \<and>
   (\<exists>r. BooleanType_equals getByteArray t same other = Inr r)"
  by (auto simp: IntegerType_equals_def BooleanType_equals_def bindE_def
      split: option.splits sum.splits)

theorem scalar_equals_witness:
  "IntegerType_equals (\<lambda>x. if x = ByteArrayType [5] then Inr 5 else Inl UnsupportedCoercion)
       (\<lambda>x. Inr [5]) 5 False (Some (ByteArrayType [5])) = Inr True \<and>
   IntegerType_equals (\<lambda>x. if x = ByteArrayType [5] then Inr 5 else Inl UnsupportedCoercion)
       (\<lambda>x. Inr [5]) 5 False (Some (ArrayType 0)) = Inr ([5] = IntegerType_getByteArray 5) \<and>
   BooleanType_equals (\<lambda>x. if x = ArrayType 0 then Inl UnsupportedCoercion else Inr [1])
       True False (Some (IntegerType 1)) = Inr True \<and>
   BooleanType_equals (\<lambda>x. if x = ArrayType 0 then Inl UnsupportedCoercion else Inr [1])
       True False (Some (ArrayType 0)) = Inr False"
  using scalar_equals [of "\<lambda>x. if x = ByteArrayType [5] then Inr 5 else Inl UnsupportedCoercion"
          "ByteArrayType [5]" 5 "\<lambda>x. Inr [5]" 5 UnsupportedCoercion "[5]" True]
    scalar_equals [of "\<lambda>x. if x = ByteArrayType [5] then Inr 5 else Inl UnsupportedCoercion"
          "ArrayType 0" 5 "\<lambda>x. Inr [5]" 5 UnsupportedCoercion "[5]" True]
    scalar_equals [of "\<lambda>x. Inl UnsupportedCoercion" "IntegerType 1" 5
          "\<lambda>x. if x = ArrayType 0 then Inl UnsupportedCoercion else Inr [1]" 5 UnsupportedCoercion "[1]" True]
    scalar_equals [of "\<lambda>x. Inl UnsupportedCoercion" "ArrayType 0" 5
          "\<lambda>x. if x = ArrayType 0 then Inl UnsupportedCoercion else Inr [1]" 5 UnsupportedCoercion "[1]" True]
  by (simp add: BooleanType_getByteArray_def)


declare serializeStackItemInternal.simps(2) [simp del]
declare deserializeStackItemInternal.simps(2) [simp del]
declare treeOf.simps(2) [simp del]
declare emitted.simps(2) [simp del]

lemmas deserialize_unfold =
  deserializeStackItemInternal.simps(2) readByte_def rethrow_def bindE_def andThen_def
section \<open>The byte-level primitives invert each other\<close>

lemma length_leBytes [simp]: "length (leBytes k n) = k"
  by (induction k arbitrary: n) simp_all

lemma unat_byte_of_nat: "unat (of_nat (n mod 256) :: byte) = n mod 256"
  by (simp add: unat_of_nat)

lemma fromLeBytes_leBytes: "fromLeBytes (leBytes k n) = n mod 256 ^ k"
proof (induction k arbitrary: n)
  case 0
  then show ?case by simp
next
  case (Suc k)
  have "n mod 256 + 256 * (n div 256 mod 256 ^ k) = n mod (256 * 256 ^ k)"
    by (simp add: mod_mult2_eq)
  with Suc show ?case by (simp add: unat_byte_of_nat)
qed

lemma readBytes_append: "readBytes (length b) (b @ r) = Inr (b, r)"
  by (simp add: readBytes_def)

lemma readBytes_leBytes: "readBytes k (leBytes k n @ r) = Inr (leBytes k n, r)"
  using readBytes_append [of "leBytes k n" r] by simp

lemma readVarUInt_varUint:
  assumes "n < 2 ^ 64"
  shows "readVarUInt (varUint n @ r) = Inr (n, r)"
proof -
  consider "n < 0xFD" | "0xFD \<le> n" "n \<le> 0xFFFF" | "0xFFFF < n" "n \<le> 0xFFFFFFFF" | "0xFFFFFFFF < n"
    by linarith
  then show ?thesis
  proof cases
    case 1
    then have u: "unat (of_nat n :: byte) = n" by (simp add: unat_of_nat)
    have ne: "(of_nat n :: byte) \<noteq> c" if "n < unat c" for c
      using that u by auto
    have "(of_nat n :: byte) \<noteq> 0xFD" "(of_nat n :: byte) \<noteq> 0xFE" "(of_nat n :: byte) \<noteq> 0xFF"
      using 1 by (auto intro!: ne)
    with 1 u show ?thesis by (simp add: readVarUInt_def varUint_def readByte_def bindE_def)
  next
    case 2
    then have "n mod 256 ^ 2 = n" by simp
    with 2 show ?thesis
      by (simp add: readVarUInt_def varUint_def readByte_def bindE_def readBytes_leBytes
          fromLeBytes_leBytes del: leBytes.simps)
  next
    case 3
    then have "n mod 256 ^ 4 = n" by simp
    with 3 show ?thesis
      by (simp add: readVarUInt_def varUint_def readByte_def bindE_def readBytes_leBytes
          fromLeBytes_leBytes del: leBytes.simps)
  next
    case 4
    from assms have "n mod 256 ^ 8 = n" by simp
    with 4 show ?thesis
      by (simp add: readVarUInt_def varUint_def readByte_def bindE_def readBytes_leBytes
          fromLeBytes_leBytes del: leBytes.simps)
  qed
qed


declare encodeInt.simps [simp del]

lemma encodeInt_small: "- 128 \<le> v \<Longrightarrow> v < 128 \<Longrightarrow> encodeInt v = [word_of_int v]"
  by (subst encodeInt.simps) simp

lemma encodeInt_big:
  "\<not> (- 128 \<le> v \<and> v < 128) \<Longrightarrow> encodeInt v = word_of_int v # encodeInt (v div 256)"
  by (subst encodeInt.simps) (simp only: if_False)

lemma encodeInt_not_Nil [simp]: "encodeInt v \<noteq> []"
  by (cases "- 128 \<le> v \<and> v < 128") (simp_all add: encodeInt_small encodeInt_big)

lemma sint_byte_of_int: "- 128 \<le> v \<Longrightarrow> v < 128 \<Longrightarrow> sint (word_of_int v :: byte) = v"
  by (simp add: signed_of_int signed_take_bit_int_eq_self)

lemma decodeInt_Cons: "bs \<noteq> [] \<Longrightarrow> decodeInt (b # bs) = uint b + 256 * decodeInt bs"
  by (cases bs) simp_all

lemma decodeInt_encodeInt: "decodeInt (encodeInt v) = v"
proof (induction v rule: encodeInt.induct)
  case (1 v)
  show ?case
  proof (cases "- 128 \<le> v \<and> v < 128")
    case True
    then show ?thesis by (simp add: encodeInt_small sint_byte_of_int)
  next
    case False
    have "uint (word_of_int v :: byte) = v mod 256" by (simp add: uint_word_of_int)
    with False "1.IH" show ?thesis
      by (simp add: encodeInt_big decodeInt_Cons)
  qed
qed

lemma length_encodeInt:
  "- (2 ^ (8 * k + 7)) \<le> v \<Longrightarrow> v < 2 ^ (8 * k + 7) \<Longrightarrow> length (encodeInt v) \<le> Suc k"
proof (induction k arbitrary: v)
  case 0
  then show ?case by (simp add: encodeInt_small)
next
  case (Suc k)
  define M :: int where "M = 2 ^ (8 * k + 7)"
  have "(2::int) ^ (8 * Suc k + 7) = 256 * M" by (simp add: M_def power_add)
  with Suc.prems have "- (256 * M) \<le> v" "v < 256 * M" by simp_all
  then have "- M \<le> v div 256" "v div 256 < M" by arith+
  then have "length (encodeInt (v div 256)) \<le> Suc k" unfolding M_def by (rule Suc.IH)
  then show ?case
    by (cases "- 128 \<le> v \<and> v < 128") (simp_all add: encodeInt_small encodeInt_big)
qed

lemma length_bigIntToBytes: "length (bigIntToBytes v) \<le> 8"
proof -
  have "- (2 ^ (8 * 7 + 7)) \<le> sint v" "sint v < 2 ^ (8 * 7 + 7)"
    using sint_ge [of v] sint_lt [of v] by simp_all
  from length_encodeInt [OF this] show ?thesis by (simp add: bigIntToBytes_def)
qed

lemma decodeInt_bigIntToBytes: "word_of_int (decodeInt (bigIntToBytes v)) = v"
  by (simp add: bigIntToBytes_def decodeInt_encodeInt)


section \<open>The deserializer inverts the wire format\<close>

lemma readVarBytes_wire:
  "length b < 2 ^ 64 \<Longrightarrow> readVarBytes (varUint (length b) @ b @ r) = Inr (b, r)"
  by (simp add: readVarBytes_def readVarUInt_varUint bindE_def readBytes_append)

lemma readInt64_wire:
  "readInt64 (varUint (length (bigIntToBytes v)) @ bigIntToBytes v @ r) = Inr (v, r)"
proof -
  have "length (bigIntToBytes v) < 2 ^ 64" using length_bigIntToBytes [of v] by simp
  then show ?thesis
    using length_bigIntToBytes [of v]
    by (simp add: readInt64_def readVarBytes_wire bindE_def decodeInt_bigIntToBytes)
qed

lemma deserializeLoop_wire:
  assumes "\<And>t r. t \<in> set ts \<Longrightarrow> deserializeStackItemInternal n (wire t @ r) = Some (Inr (t, r))"
  shows "deserializeLoop n (length ts) (concat (map wire ts) @ r) acc = Some (Inr (acc @ ts, r))"
  using assms
proof (induction ts arbitrary: acc)
  case Nil
  then show ?case by simp
next
  case (Cons t ts)
  then show ?case by (simp add: andThen_def)
qed

lemma deserializeLoopMap_wire:
  assumes "\<And>k v r. (k, v) \<in> set es \<Longrightarrow>
             deserializeStackItemInternal n (wire k @ r) = Some (Inr (k, r)) \<and>
             deserializeStackItemInternal n (wire v @ r) = Some (Inr (v, r))"
  shows "deserializeLoopMap n (length es) (concat (map (\<lambda>(k, v). wire k @ wire v) es) @ r) acc =
           Some (Inr (acc @ es, r))"
  using assms
proof (induction es arbitrary: acc)
  case Nil
  then show ?case by simp
next
  case (Cons e es)
  obtain k v where e: "e = (k, v)" by (cases e)
  from Cons.prems [of k v] e
  have k: "\<And>r. deserializeStackItemInternal n (wire k @ r) = Some (Inr (k, r))"
    and v: "\<And>r. deserializeStackItemInternal n (wire v @ r) = Some (Inr (v, r))" by simp_all
  have "deserializeLoopMap n (length es) (concat (map (\<lambda>(k, v). wire k @ wire v) es) @ r) (acc @ [e]) =
          Some (Inr ((acc @ [e]) @ es, r))"
    by (rule Cons.IH) (use Cons.prems in auto)
  then show ?case unfolding e by (simp add: andThen_def k v)
qed

lemma depthVal_pos: "0 < depthVal t"
  by (cases t) (simp_all add: depthVal.simps)

declare depthVal.simps [simp del]

lemma depthVal_Array: "depthVal (VArray ts) = Suc (Max (insert 0 (depthVal ` set ts)))"
  and depthVal_Struct: "depthVal (VStruct ts) = Suc (Max (insert 0 (depthVal ` set ts)))"
  and depthVal_Map:
    "depthVal (VMap es) = Suc (Max (insert 0 ((\<lambda>(k, v). max (depthVal k) (depthVal v)) ` set es)))"
  by (simp_all add: depthVal.simps)

lemma deserialize_wire:
  "wfVal t \<Longrightarrow> depthVal t \<le> fuel \<Longrightarrow>
   deserializeStackItemInternal fuel (wire t @ r) = Some (Inr (t, r))"
proof (induction t arbitrary: fuel r)
  case (VByteArray b)
  then obtain n where "fuel = Suc n" by (cases fuel) (simp_all add: depthVal.simps)
  with VByteArray show ?case
    by (simp add: deserialize_unfold readVarBytes_wire)
next
  case (VBoolean b)
  then obtain n where "fuel = Suc n" by (cases fuel) (simp_all add: depthVal.simps)
  then show ?case by (simp add: deserialize_unfold)
next
  case (VInteger v)
  then obtain n where "fuel = Suc n" by (cases fuel) (simp_all add: depthVal.simps)
  then show ?case by (simp add: deserialize_unfold readInt64_wire)
next
  case (VArray ts)
  then obtain n where n: "fuel = Suc n" by (cases fuel) (simp_all add: depthVal.simps)
  note dp = VArray.prems(2) [unfolded depthVal_Array n]
  have kids: "deserializeStackItemInternal n (wire t @ r) = Some (Inr (t, r))" if "t \<in> set ts" for t r
  proof (rule VArray.IH [OF that])
    show "wfVal t" using VArray.prems(1) that by simp
    have "depthVal t \<le> Max (insert 0 (depthVal ` set ts))" using that by (intro Max_ge) auto
    with dp show "depthVal t \<le> n" by linarith
  qed
  from VArray.prems(1) have len: "length ts < 2 ^ 64" by simp
  show ?case unfolding n
    by (simp add: deserialize_unfold readVarUInt_varUint [OF len]
        deserializeLoop_wire [OF kids])
next
  case (VStruct ts)
  then obtain n where n: "fuel = Suc n" by (cases fuel) (simp_all add: depthVal.simps)
  note dp = VStruct.prems(2) [unfolded depthVal_Struct n]
  have kids: "deserializeStackItemInternal n (wire t @ r) = Some (Inr (t, r))" if "t \<in> set ts" for t r
  proof (rule VStruct.IH [OF that])
    show "wfVal t" using VStruct.prems(1) that by simp
    have "depthVal t \<le> Max (insert 0 (depthVal ` set ts))" using that by (intro Max_ge) auto
    with dp show "depthVal t \<le> n" by linarith
  qed
  from VStruct.prems(1) have len: "length ts < 2 ^ 64" by simp
  show ?case unfolding n
    by (simp add: deserialize_unfold readVarUInt_varUint [OF len]
        deserializeLoop_wire [OF kids])
next
  case (VMap es)
  then obtain n where n: "fuel = Suc n" by (cases fuel) (simp_all add: depthVal.simps)
  note dp = VMap.prems(2) [unfolded depthVal_Map n]
  have kids: "deserializeStackItemInternal n (wire k @ r) = Some (Inr (k, r)) \<and>
              deserializeStackItemInternal n (wire v @ r) = Some (Inr (v, r))"
    if "(k, v) \<in> set es" for k v r
  proof -
    have "max (depthVal k) (depthVal v) \<le> Max (insert 0 ((\<lambda>(k, v). max (depthVal k) (depthVal v)) ` set es))"
      using that by (intro Max_ge) auto
    with dp have d: "depthVal k \<le> n" "depthVal v \<le> n" by linarith+
    from VMap.prems(1) that have w: "wfVal k" "wfVal v" by auto
    have "k \<in> Basic_BNFs.fsts (k, v)" "v \<in> Basic_BNFs.snds (k, v)" by simp_all
    from VMap.IH(1) [OF that this(1) w(1) d(1)] VMap.IH(2) [OF that this(2) w(2) d(2)]
    show ?thesis by simp
  qed
  from VMap.prems(1) have len: "length es < 2 ^ 64" by simp
  show ?case unfolding n
    by (simp add: deserialize_unfold readVarUInt_varUint [OF len]
        deserializeLoopMap_wire [OF kids])
qed


lemma wire_nestedVal: "wire (nestedVal n) = nestedBytes n"
  by (induction n) (simp_all add: varUint_def)

lemma wfVal_nestedVal: "wfVal (nestedVal n)"
  by (induction n) simp_all

lemma depthVal_nestedVal: "depthVal (nestedVal n) = Suc n"
  by (induction n) (simp_all add: depthVal.simps)

lemma deserialize_nested:
  "deserializeStackItem (Suc n + k) (nestedBytes n) = Some (Inr (nestedVal n))"
  using deserialize_wire [OF wfVal_nestedVal, of n "Suc n + k" "[]"]
  by (simp add: depthVal_nestedVal wire_nestedVal deserializeStackItem_def andThen_def)

lemma deserialize_nested_depth:
  "deserializeStackItemInternal n (nestedBytes n @ r) = None"
  by (induction n arbitrary: r)
     (simp_all add: deserialize_unfold readVarUInt_def)

text \<open>
  C5, as the code has it. The deserializer keeps no depth counter and never consults
  \<open>MAX_STRUCT_DEPTH\<close>: for every \<open>n\<close> the encoding of \<open>n + 1\<close> nested Arrays is decoded
  to the nested value, and doing so takes \<open>n + 1\<close> nested calls of
  \<open>deserializeStackItemInternal\<close> (with its recursion capped at depth \<open>n\<close> the call does not
  return). The depth of the recursion is bounded by the input alone.
\<close>

theorem deserialize_has_no_depth_bound:
  "deserializeStackItem (Suc n + k) (nestedBytes n) = Some (Inr (nestedVal n)) \<and>
   depthVal (nestedVal n) = Suc n \<and>
   deserializeStackItem n (nestedBytes n) = None"
proof (intro conjI)
  show "deserializeStackItem (Suc n + k) (nestedBytes n) = Some (Inr (nestedVal n))"
    by (rule deserialize_nested)
  show "depthVal (nestedVal n) = Suc n" by (rule depthVal_nestedVal)
  show "deserializeStackItem n (nestedBytes n) = None"
    using deserialize_nested_depth [of n "[]"] by (simp add: deserializeStackItem_def andThen_def)
qed

theorem deserialize_depth_counterexample:
  "circularRefAndDepthDetection 10 (chainStore 11 (ArrayType 11)) (ArrayType 0) \<and>
   deserializeStackItem 13 (nestedBytes 11) = Some (Inr (nestedVal 11)) \<and>
   depthVal (nestedVal 11) = 12"
proof (intro conjI)
  show "circularRefAndDepthDetection 10 (chainStore 11 (ArrayType 11)) (ArrayType 0)"
    by (simp add: circularRefAndDepthDetection_def chainStore_def chainItem_def
        circularRefAndDepthDetectionInternal.simps)
  show "deserializeStackItem 13 (nestedBytes 11) = Some (Inr (nestedVal 11))"
    using deserialize_nested [of 11 1] by simp
  show "depthVal (nestedVal 11) = 12" using depthVal_nestedVal [of 11] by simp
qed


section \<open>Integers on the wire\<close>

lemma detection_scalar:
  "circularRefAndDepthDetection D st (ByteArrayType b) = False"
  "circularRefAndDepthDetection D st (BooleanType t) = False"
  "circularRefAndDepthDetection D st (IntegerType v) = False"
  by (simp_all add: circularRefAndDepthDetection_def circularRefAndDepthDetectionInternal.simps)

lemma serialize_Integer:
  "serializeStackItemInternal S (Suc n) st (IntegerType v) w = Some (Inr w') \<longleftrightarrow>
     w' = w @ wire (VInteger v) \<and> length w' \<le> S"
  by (auto simp: serializeStackItemInternal.simps(2) rethrow_def bindE_def writeUint8_def
      writeVarBytes_def writeVarUint_def writeBytes_def IntegerType_getByteArray_def
      split: if_splits)

lemma readInt64_payload:
  assumes "length p < 2 ^ 64"
  shows "readInt64 (varUint (length p) @ p @ r) =
           (if 8 < length p then Inl MalformedEncoding else Inr (word_of_int (decodeInt p), r))"
  using assms by (simp add: readInt64_def readVarBytes_wire bindE_def)

text \<open>
  C2. On the tag \<open>0x02\<close> the deserializer reads a length-prefixed payload and takes it as
  a little-endian two's-complement integer; a payload longer than 8 bytes is an error.
  What the serializer writes for an Integer (the tag, then the length-prefixed minimal
  encoding of at most 8 bytes) is decoded to the same Integer; \<open>Integer(0)\<close> is written as
  \<open>[0x02, 0x00]\<close>.
\<close>

theorem integer_decoding:
  "(length p \<le> 8 \<longrightarrow>
      deserializeStackItemInternal (Suc n) (0x02 # varUint (length p) @ p @ r) =
        Some (Inr (VInteger (word_of_int (decodeInt p)), r))) \<and>
   (8 < length p \<and> length p < 2 ^ 64 \<longrightarrow>
      deserializeStackItemInternal (Suc n) (0x02 # varUint (length p) @ p @ r) =
        Some (Inl (Rethrown ''Deserialize error''
                (Rethrown ''Deserialize stackItems Integer error'' MalformedEncoding)))) \<and>
   (serializeStackItem D S (Suc n) st (IntegerType v) = Some (Inr bs) \<longrightarrow>
      bs = 0x02 # varUint (length (IntegerType_getByteArray v)) @ IntegerType_getByteArray v \<and>
      length (IntegerType_getByteArray v) \<le> 8 \<and>
      deserializeStackItem (Suc k) bs = Some (Inr (VInteger v))) \<and>
   (2 \<le> S \<longrightarrow> serializeStackItem D S (Suc n) st (IntegerType 0) = Some (Inr [0x02, 0x00]))"
proof (intro conjI impI)
  assume "length p \<le> 8"
  then have "length p < 2 ^ 64" by simp
  from readInt64_payload [OF this, of r] \<open>length p \<le> 8\<close>
  show "deserializeStackItemInternal (Suc n) (0x02 # varUint (length p) @ p @ r) =
        Some (Inr (VInteger (word_of_int (decodeInt p)), r))"
    by (simp add: deserialize_unfold)
next
  assume a: "8 < length p \<and> length p < 2 ^ 64"
  from readInt64_payload [of p r] a
  show "deserializeStackItemInternal (Suc n) (0x02 # varUint (length p) @ p @ r) =
        Some (Inl (Rethrown ''Deserialize error''
                (Rethrown ''Deserialize stackItems Integer error'' MalformedEncoding)))"
    by (simp add: deserialize_unfold)
next
  assume "serializeStackItem D S (Suc n) st (IntegerType v) = Some (Inr bs)"
  then have bs: "bs = wire (VInteger v)"
    by (simp add: serializeStackItem_def detection_scalar serialize_Integer)
  then show "bs = 0x02 # varUint (length (IntegerType_getByteArray v)) @ IntegerType_getByteArray v"
    by (simp add: IntegerType_getByteArray_def)
  show "length (IntegerType_getByteArray v) \<le> 8"
    by (simp add: IntegerType_getByteArray_def length_bigIntToBytes)
  show "deserializeStackItem (Suc k) bs = Some (Inr (VInteger v))"
    using deserialize_wire [of "VInteger v" "Suc k" "[]"]
    unfolding bs by (simp add: deserializeStackItem_def andThen_def depthVal.simps)
next
  assume "2 \<le> S"
  then show "serializeStackItem D S (Suc n) st (IntegerType 0) = Some (Inr [0x02, 0x00])"
    by (simp add: serializeStackItem_def detection_scalar serialize_Integer bigIntToBytes_def
        varUint_def)
qed

theorem integer_decoding_witness:
  "length [0xFE :: byte] \<le> 8 \<and>
   deserializeStackItemInternal 1 [0x02, 0x01, 0xFE] = Some (Inr (VInteger (- 2), [])) \<and>
   8 < length (replicate 9 (0 :: byte)) \<and>
   deserializeStackItemInternal 1 (0x02 # 0x09 # replicate 9 0) =
     Some (Inl (Rethrown ''Deserialize error''
             (Rethrown ''Deserialize stackItems Integer error'' MalformedEncoding))) \<and>
   serializeStackItem 10 1048576 1 emptyStore (IntegerType 0) = Some (Inr [0x02, 0x00]) \<and>
   deserializeStackItem 1 [0x02, 0x00] = Some (Inr (VInteger 0))"
proof -
  note t1 = integer_decoding [of "[0xFE]" 0 "[]" 10 1048576 emptyStore 0 "[0x02, 0x00]" 0]
  note t2 = integer_decoding [of "replicate 9 0" 0 "[]" 10 1048576 emptyStore 0 "[0x02, 0x00]" 0]
  from t1 t2 show ?thesis by (simp add: varUint_def)
qed


section \<open>The serializer writes the wire format of the emitted value\<close>

lemma rethrow_Inr [simp]: "rethrow msg r = Some (Inr y) \<longleftrightarrow> r = Some (Inr y)"
  by (auto simp: rethrow_def split: option.splits sum.splits)

lemma andThen_Inr:
  "andThen r f = Some (Inr y) \<longleftrightarrow> (\<exists>x. r = Some (Inr x) \<and> f x = Some (Inr y))"
  by (auto simp: andThen_def split: option.splits sum.splits)

lemma bindE_Inr: "bindE r f = Inr y \<longleftrightarrow> (\<exists>x. r = Inr x \<and> f x = Inr y)"
  by (auto simp: bindE_def split: sum.splits)

lemma writeBytes_Inr: "writeBytes S w bs = Inr w' \<longleftrightarrow> w' = w @ bs \<and> length w' \<le> S"
  by (auto simp: writeBytes_def)

lemma writeUint8_Inr: "writeUint8 S w b = Inr w' \<longleftrightarrow> w' = w @ [b] \<and> length w' \<le> S"
  by (auto simp: writeUint8_def writeBytes_def)

lemma writeVarUint_Inr: "writeVarUint S w n = Inr w' \<longleftrightarrow> w' = w @ varUint n \<and> length w' \<le> S"
  by (auto simp: writeVarUint_def writeBytes_def)

lemma writeVarBytes_Inr:
  "writeVarBytes S w bs = Inr w' \<longleftrightarrow> w' = w @ varUint (length bs) @ bs \<and> length w' \<le> S"
  by (auto simp: writeVarBytes_def writeVarUint_Inr writeBytes_Inr bindE_Inr)

lemmas write_Inr = bindE_Inr writeBytes_Inr writeUint8_Inr writeVarUint_Inr writeVarBytes_Inr

lemma those_map_Some:
  "those (map f xs) = Some ys \<longleftrightarrow> list_all2 (\<lambda>x y. f x = Some y) xs ys"
proof (induction xs arbitrary: ys)
  case Nil
  then show ?case by auto
next
  case (Cons x xs)
  then show ?case by (cases ys) (auto split: option.splits)
qed

lemma those_length: "those xs = Some ys \<Longrightarrow> length ys = length xs"
  by (induction xs arbitrary: ys) (auto split: option.splits)

lemma those_map_wire:
  "those (map f xs) = Some ys \<Longrightarrow> varUint (length xs) = varUint (length ys)"
  by (drule those_length) simp

lemma pairOption_Some: "pairOption x y = Some p \<longleftrightarrow> x = Some (fst p) \<and> y = Some (snd p)"
  by (cases p) (auto simp: pairOption_def split: option.splits)

lemma collectKeys_length:
  "collectKeys es i u k = Inr (u', k') \<Longrightarrow> length u' = length u + length es"
  by (induction es i u k rule: collectKeys.induct) (auto simp: Let_def split: if_splits)

lemma serializeLoop_emitted:
  assumes "serializes S n st" and "length w \<le> S"
  shows "serializeLoop S n st xs w = Some (Inr w') \<longleftrightarrow>
           (\<exists>ts. those (map (emitted n st) xs) = Some ts \<and> w' = w @ concat (map wire ts) \<and>
                 length w' \<le> S)"
  using assms(2)
proof (induction xs arbitrary: w)
  case Nil
  then show ?case by auto
next
  case (Cons x xs)
  have step: "serializeStackItemInternal S n st x w = Some (Inr w1) \<longleftrightarrow>
                (\<exists>t. emitted n st x = Some t \<and> w1 = w @ wire t \<and> length w1 \<le> S)" for w1
    using assms(1) Cons.prems unfolding serializes_def by blast
  show ?case
  proof
    assume "serializeLoop S n st (x # xs) w = Some (Inr w')"
    then obtain w1 where w1: "serializeStackItemInternal S n st x w = Some (Inr w1)"
      and rest: "serializeLoop S n st xs w1 = Some (Inr w')"
      by (auto simp: andThen_Inr)
    from w1 step obtain t where t: "emitted n st x = Some t" "w1 = w @ wire t" "length w1 \<le> S"
      by blast
    from rest Cons.IH [OF t(3)] obtain ts where
      ts: "those (map (emitted n st) xs) = Some ts" "w' = w1 @ concat (map wire ts)" "length w' \<le> S"
      by blast
    from t ts show "\<exists>ts. those (map (emitted n st) (x # xs)) = Some ts \<and>
        w' = w @ concat (map wire ts) \<and> length w' \<le> S"
      by (intro exI [of _ "t # ts"]) simp
  next
    assume "\<exists>ts. those (map (emitted n st) (x # xs)) = Some ts \<and>
        w' = w @ concat (map wire ts) \<and> length w' \<le> S"
    then obtain t ts where t: "emitted n st x = Some t"
      and ts: "those (map (emitted n st) xs) = Some ts"
      and w': "w' = w @ wire t @ concat (map wire ts)" "length w' \<le> S"
      by (auto split: option.splits)
    from w' have l1: "length (w @ wire t) \<le> S" by simp
    with t step have "serializeStackItemInternal S n st x w = Some (Inr (w @ wire t))" by blast
    moreover from Cons.IH [OF l1] ts w'
    have "serializeLoop S n st xs (w @ wire t) = Some (Inr w')" by auto
    ultimately show "serializeLoop S n st (x # xs) w = Some (Inr w')"
      by (simp add: andThen_Inr)
  qed
qed

lemma serializeEntries_emitted:
  assumes "serializes S n st" and "length w \<le> S"
  shows "serializeEntries S n st mp keyMap ss w = Some (Inr w') \<longleftrightarrow>
           (\<exists>es. those (map (emitEntry (emitted n st) mp keyMap) ss) = Some es \<and>
                 w' = w @ concat (map (\<lambda>(k, v). wire k @ wire v) es) \<and> length w' \<le> S)"
  using assms(2)
proof (induction ss arbitrary: w)
  case Nil
  then show ?case by auto
next
  case (Cons s ss)
  have step: "serializeStackItemInternal S n st x w0 = Some (Inr w1) \<longleftrightarrow>
                (\<exists>t. emitted n st x = Some t \<and> w1 = w0 @ wire t \<and> length w1 \<le> S)"
    if "length w0 \<le> S" for x w0 w1
    using assms(1) that unfolding serializes_def by blast
  show ?case
  proof
    assume a: "serializeEntries S n st mp keyMap (s # ss) w = Some (Inr w')"
    then obtain i where i: "keyMap s = Some i" "i < length mp"
      by (auto split: option.splits if_splits)
    with a obtain w1 w2 where
      w1: "serializeStackItemInternal S n st (fst (mp ! i)) w = Some (Inr w1)"
      and w2: "serializeStackItemInternal S n st (snd (mp ! i)) w1 = Some (Inr w2)"
      and rest: "serializeEntries S n st mp keyMap ss w2 = Some (Inr w')"
      by (auto simp: andThen_Inr)
    from w1 step [OF Cons.prems] obtain k where
      k: "emitted n st (fst (mp ! i)) = Some k" "w1 = w @ wire k" "length w1 \<le> S" by blast
    from w2 step [OF k(3)] obtain v where
      v: "emitted n st (snd (mp ! i)) = Some v" "w2 = w1 @ wire v" "length w2 \<le> S" by blast
    from rest Cons.IH [OF v(3)] obtain es where
      es: "those (map (emitEntry (emitted n st) mp keyMap) ss) = Some es"
        "w' = w2 @ concat (map (\<lambda>(k, v). wire k @ wire v) es)" "length w' \<le> S"
      by blast
    have "emitEntry (emitted n st) mp keyMap s = Some (k, v)"
      using i k(1) v(1) by (simp add: emitEntry_def pairOption_def)
    with es k(2) v(2)
    show "\<exists>es. those (map (emitEntry (emitted n st) mp keyMap) (s # ss)) = Some es \<and>
        w' = w @ concat (map (\<lambda>(k, v). wire k @ wire v) es) \<and> length w' \<le> S"
      by (intro exI [of _ "(k, v) # es"]) simp
  next
    assume "\<exists>es. those (map (emitEntry (emitted n st) mp keyMap) (s # ss)) = Some es \<and>
        w' = w @ concat (map (\<lambda>(k, v). wire k @ wire v) es) \<and> length w' \<le> S"
    then obtain e es where e: "emitEntry (emitted n st) mp keyMap s = Some e"
      and es: "those (map (emitEntry (emitted n st) mp keyMap) ss) = Some es"
      and w': "w' = w @ (wire (fst e) @ wire (snd e)) @ concat (map (\<lambda>(k, v). wire k @ wire v) es)"
         "length w' \<le> S"
      by (auto split: option.splits)
    from e obtain i where i: "keyMap s = Some i" "i < length mp"
      and k: "emitted n st (fst (mp ! i)) = Some (fst e)"
      and v: "emitted n st (snd (mp ! i)) = Some (snd e)"
      by (auto simp: emitEntry_def pairOption_Some split: option.splits if_splits)
    from w' have l1: "length (w @ wire (fst e)) \<le> S"
      and l2: "length ((w @ wire (fst e)) @ wire (snd e)) \<le> S" by simp_all
    from k l1 step [OF Cons.prems]
    have s1: "serializeStackItemInternal S n st (fst (mp ! i)) w = Some (Inr (w @ wire (fst e)))"
      by blast
    from v l2 step [OF l1]
    have s2: "serializeStackItemInternal S n st (snd (mp ! i)) (w @ wire (fst e)) =
                Some (Inr ((w @ wire (fst e)) @ wire (snd e)))"
      by blast
    from Cons.IH [OF l2] es w'
    have s3: "serializeEntries S n st mp keyMap ss ((w @ wire (fst e)) @ wire (snd e)) = Some (Inr w')"
      by auto
    from i s1 s2 s3 show "serializeEntries S n st mp keyMap (s # ss) w = Some (Inr w')"
      by (simp add: andThen_Inr)
  qed
qed


lemma serializes_all: "serializes S n st"
proof (induction n)
  case 0
  show ?case by (simp add: serializes_def)
next
  case (Suc n)
  show ?case unfolding serializes_def
  proof (intro allI impI)
    fix item and w w' :: Buffer
    assume w: "length w \<le> S"
    show "serializeStackItemInternal S (Suc n) st item w = Some (Inr w') \<longleftrightarrow>
            (\<exists>t. emitted (Suc n) st item = Some t \<and> w' = w @ wire t \<and> length w' \<le> S)"
    proof (cases item)
      case (ByteArrayType ba)
      then show ?thesis
        by (auto simp: serializeStackItemInternal.simps(2) emitted.simps(2) write_Inr)
    next
      case (BooleanType b)
      then show ?thesis
        by (auto simp: serializeStackItemInternal.simps(2) emitted.simps(2) write_Inr)
    next
      case (IntegerType v)
      then show ?thesis
        by (auto simp: serializeStackItemInternal.simps(2) emitted.simps(2) write_Inr
            IntegerType_getByteArray_def)
    next
      case (ArrayType a)
      let ?h = "w @ 0x80 # varUint (length (jsArrays st a))"
      have "serializeStackItemInternal S (Suc n) st item w = Some (Inr w') \<longleftrightarrow>
              length ?h \<le> S \<and> serializeLoop S n st (jsArrays st a) ?h = Some (Inr w')"
        unfolding ArrayType by (auto simp: serializeStackItemInternal.simps(2) andThen_Inr write_Inr)
      also have "\<dots> \<longleftrightarrow> length ?h \<le> S \<and>
          (\<exists>ts. those (map (emitted n st) (jsArrays st a)) = Some ts \<and>
                w' = ?h @ concat (map wire ts) \<and> length w' \<le> S)"
        using serializeLoop_emitted [OF Suc, of ?h] by blast
      also have "\<dots> \<longleftrightarrow> (\<exists>t. emitted (Suc n) st item = Some t \<and> w' = w @ wire t \<and> length w' \<le> S)"
        unfolding ArrayType by (auto simp: emitted.simps(2) those_map_wire)
      finally show ?thesis .
    next
      case (StructType a)
      let ?h = "w @ 0x81 # varUint (length (jsArrays st a))"
      have "serializeStackItemInternal S (Suc n) st item w = Some (Inr w') \<longleftrightarrow>
              length ?h \<le> S \<and> serializeLoop S n st (jsArrays st a) ?h = Some (Inr w')"
        unfolding StructType by (auto simp: serializeStackItemInternal.simps(2) andThen_Inr write_Inr)
      also have "\<dots> \<longleftrightarrow> length ?h \<le> S \<and>
          (\<exists>ts. those (map (emitted n st) (jsArrays st a)) = Some ts \<and>
                w' = ?h @ concat (map wire ts) \<and> length w' \<le> S)"
        using serializeLoop_emitted [OF Suc, of ?h] by blast
      also have "\<dots> \<longleftrightarrow> (\<exists>t. emitted (Suc n) st item = Some t \<and> w' = w @ wire t \<and> length w' \<le> S)"
        unfolding StructType by (auto simp: emitted.simps(2) those_map_wire)
      finally show ?thesis .
    next
      case (MapType m)
      let ?mp = "jsMaps st m"
      let ?h = "w @ 0x82 # varUint (length ?mp)"
      show ?thesis
      proof (cases "collectKeys ?mp 0 [] Map.empty")
        case (Inl e)
        then show ?thesis unfolding MapType
          by (auto simp: serializeStackItemInternal.simps(2) emitted.simps(2) andThen_Inr write_Inr)
      next
        case (Inr p)
        obtain u k where p: "p = (u, k)" by (cases p)
        from collectKeys_length [OF Inr [unfolded p]] have lu: "length u = length ?mp" by simp
        have "serializeStackItemInternal S (Suc n) st item w = Some (Inr w') \<longleftrightarrow>
                length ?h \<le> S \<and> serializeEntries S n st ?mp k (sort u) ?h = Some (Inr w')"
          unfolding MapType using Inr p
          by (auto simp: serializeStackItemInternal.simps(2) andThen_Inr write_Inr)
        also have "\<dots> \<longleftrightarrow> length ?h \<le> S \<and>
            (\<exists>es. those (map (emitEntry (emitted n st) ?mp k) (sort u)) = Some es \<and>
                  w' = ?h @ concat (map (\<lambda>(k, v). wire k @ wire v) es) \<and> length w' \<le> S)"
          using serializeEntries_emitted [OF Suc, of ?h] by blast
        also have "\<dots> \<longleftrightarrow> (\<exists>t. emitted (Suc n) st item = Some t \<and> w' = w @ wire t \<and> length w' \<le> S)"
          unfolding MapType using Inr p lu those_map_wire [of "emitEntry (emitted n st) ?mp k" "sort u"]
          by (auto simp: emitted.simps(2))
        finally show ?thesis .
      qed
    next
      case (InteropType h)
      then show ?thesis
        by (auto simp: serializeStackItemInternal.simps(2) emitted.simps(2))
    qed
  qed
qed

lemma serialize_iff_emitted:
  "serializeStackItemInternal S n st item [] = Some (Inr bs) \<longleftrightarrow>
     (\<exists>t. emitted n st item = Some t \<and> bs = wire t \<and> length bs \<le> S)"
  using serializes_all [of S n st] unfolding serializes_def by simp


section \<open>Chains of nested Arrays\<close>

lemma chain_arrays [simp]:
  "jsArrays (chainStore n leaf) i = (if i < n then [chainItem n leaf (Suc i)] else [])"
  by (simp add: chainStore_def)

lemma chainItem_simps:
  "i < n \<Longrightarrow> chainItem n leaf i = ArrayType i"
  "chainItem n leaf n = leaf"
  by (simp_all add: chainItem_def)

lemma chain_not_within:
  "withinDepth (chainStore n leaf) k (chainItem n leaf i) \<Longrightarrow> i \<le> n \<Longrightarrow> n - i \<le> k"
proof (induction k arbitrary: i)
  case 0
  then show ?case by (cases "i < n") (auto simp: chainItem_simps withinDepth.simps)
next
  case (Suc k)
  show ?case
  proof (cases "i < n")
    case True
    with Suc.prems(1) have "withinDepth (chainStore n leaf) k (chainItem n leaf (Suc i))"
      by (simp add: chainItem_simps withinDepth.simps)
    from Suc.IH [OF this] True show ?thesis by simp
  next
    case False
    then show ?thesis by simp
  qed
qed

lemma leaf_within:
  "leafVal st leaf = Some t \<Longrightarrow> withinDepth st k leaf"
  by (cases k; cases leaf) (simp_all add: leafVal_def withinDepth.simps split: if_splits)

lemma chain_within:
  "leafVal (chainStore n leaf) leaf = Some t \<Longrightarrow> i \<le> n \<Longrightarrow> n - i \<le> k \<Longrightarrow>
   withinDepth (chainStore n leaf) k (chainItem n leaf i)"
proof (induction k arbitrary: i)
  case 0
  then have "i = n" by simp
  with 0 show ?case by (simp add: chainItem_simps leaf_within)
next
  case (Suc k)
  show ?case
  proof (cases "i < n")
    case True
    with Suc.prems have "withinDepth (chainStore n leaf) k (chainItem n leaf (Suc i))"
      by (intro Suc.IH) simp_all
    with True show ?thesis by (simp add: chainItem_simps withinDepth.simps)
  next
    case False
    with Suc.prems have "i = n" by simp
    with Suc.prems show ?thesis by (simp add: chainItem_simps leaf_within)
  qed
qed

lemma emitted_leaf:
  "leafVal st leaf = Some t \<Longrightarrow> emitted (Suc k) st leaf = Some t"
  by (cases leaf) (auto simp: leafVal_def emitted.simps(2) split: if_splits)

lemma emitted_chain:
  "leafVal (chainStore n leaf) leaf = Some t \<Longrightarrow> i \<le> n \<Longrightarrow>
   emitted (Suc (n - i) + k) (chainStore n leaf) (chainItem n leaf i) = Some (wrapVal (n - i) t)"
proof (induction "n - i" arbitrary: i)
  case 0
  then have "i = n" by simp
  with 0 show ?case by (simp add: chainItem_simps emitted_leaf)
next
  case (Suc j)
  then have lt: "i < n" and j: "j = n - Suc i" and le: "Suc i \<le> n" by simp_all
  from Suc.hyps(1) [OF j Suc.prems(1) le]
  have "emitted (Suc j + k) (chainStore n leaf) (chainItem n leaf (Suc i)) = Some (wrapVal j t)"
    using j by simp
  with lt show ?case unfolding Suc.hyps(2) [symmetric]
    by (simp add: chainItem_simps emitted.simps(2))
qed

lemma length_wire_wrapVal: "length (wire (wrapVal n t)) = 2 * n + length (wire t)"
  by (induction n) (simp_all add: varUint_def)

lemma wire_wrapVal_empty: "wire (wrapVal n (VArray [])) = nestedBytes n"
  by (induction n) (simp_all add: varUint_def)

lemma chain_rejected:
  assumes "D < n"
  shows "serializeStackItem D S fuel (chainStore n leaf) (chainItem n leaf 0) =
     Some (Inl CircularReference)"
proof -
  have "\<not> withinDepth (chainStore n leaf) D (chainItem n leaf 0)"
    using chain_not_within [of n leaf D 0] assms by auto
  then show ?thesis by (simp add: serializeStackItem_def detection_iff_within)
qed

lemma chain_serialized:
  assumes "n \<le> D" and "leafVal (chainStore n leaf) leaf = Some t"
    and "2 * n + length (wire t) \<le> S"
  shows "serializeStackItem D S (Suc n + k) (chainStore n leaf) (chainItem n leaf 0) =
     Some (Inr (wire (wrapVal n t)))"
proof -
  from assms(1,2) have "withinDepth (chainStore n leaf) D (chainItem n leaf 0)"
    by (intro chain_within [of n leaf t]) simp_all
  moreover have "emitted (Suc n + k) (chainStore n leaf) (chainItem n leaf 0) = Some (wrapVal n t)"
    using emitted_chain [of n leaf t 0 k] assms(2) by simp
  ultimately show ?thesis using assms(3)
    by (simp add: serializeStackItem_def detection_iff_within serialize_iff_emitted
        length_wire_wrapVal)
qed

lemma empty_chain_serialized:
  assumes "n \<le> D" and "2 * n + 2 \<le> S"
  shows "serializeStackItem D S (Suc n + k) (chainStore n (ArrayType n)) (chainItem n (ArrayType n) 0) =
     Some (Inr (nestedBytes n))"
proof -
  have "leafVal (chainStore n (ArrayType n)) (ArrayType n) = Some (VArray [])"
    by (simp add: leafVal_def)
  from chain_serialized [OF assms(1) this, of S k] assms(2) show ?thesis
    by (simp add: wire_wrapVal_empty varUint_def)
qed

text \<open>
  C7, as the code has it. The guard tests the depth of every item it reaches, the root at
  depth 0, and returns false on an empty Array before it looks any further. Take \<open>n\<close>
  Arrays nested around an item \<open>leaf\<close>. When \<open>n\<close> exceeds \<open>MAX_STRUCT_DEPTH\<close>,
  \<open>serializeStackItem\<close> rejects the chain whatever the leaf is: so \<open>MAX_STRUCT_DEPTH + 1\<close>
  Arrays around any element fail, and so do \<open>MAX_STRUCT_DEPTH + 2\<close> or more nested Arrays.
  When \<open>n\<close> is at most \<open>MAX_STRUCT_DEPTH\<close> and the leaf is a scalar or an empty container,
  the chain is serialized, to the wire format of the nested value, when that fits the size
  limit. In particular \<open>n + 1\<close> nested Arrays with the innermost one empty are serialized
  for every \<open>n\<close> up to \<open>MAX_STRUCT_DEPTH\<close>: a chain of \<open>MAX_STRUCT_DEPTH + 1\<close> nested Arrays
  that ends in an empty Array succeeds.
\<close>

theorem nested_array_depth_limit:
  "(D < n \<longrightarrow>
      serializeStackItem D S fuel (chainStore n leaf) (chainItem n leaf 0) =
        Some (Inl CircularReference)) \<and>
   (n \<le> D \<and> leafVal (chainStore n leaf) leaf = Some t \<and> 2 * n + length (wire t) \<le> S \<longrightarrow>
      serializeStackItem D S (Suc n + k) (chainStore n leaf) (chainItem n leaf 0) =
        Some (Inr (wire (wrapVal n t)))) \<and>
   (n \<le> D \<and> 2 * n + 2 \<le> S \<longrightarrow>
      serializeStackItem D S (Suc n + k) (chainStore n (ArrayType n)) (chainItem n (ArrayType n) 0) =
        Some (Inr (nestedBytes n)))"
  using chain_rejected [of D n S fuel leaf] chain_serialized [of n D leaf t S k]
    empty_chain_serialized [of n D S k]
  by blast

theorem nested_array_depth_limit_witness:
  "(2 :: nat) < 3 \<and>
   serializeStackItem 2 1048576 0 (chainStore 3 (IntegerType 7)) (ArrayType 0) =
     Some (Inl CircularReference) \<and>
   serializeStackItem 2 1048576 0 (chainStore 3 (ArrayType 3)) (ArrayType 0) =
     Some (Inl CircularReference) \<and>
   (2 :: nat) \<le> 2 \<and>
   leafVal (chainStore 2 (IntegerType 7)) (IntegerType 7) = Some (VInteger 7) \<and>
   2 * 2 + length (wire (VInteger 7)) \<le> (1048576 :: nat) \<and>
   serializeStackItem 2 1048576 3 (chainStore 2 (IntegerType 7)) (ArrayType 0) =
     Some (Inr [0x80, 0x01, 0x80, 0x01, 0x02, 0x01, 0x07]) \<and>
   2 * 2 + 2 \<le> (1048576 :: nat) \<and>
   serializeStackItem 2 1048576 3 (chainStore 2 (ArrayType 2)) (ArrayType 0) =
     Some (Inr [0x80, 0x01, 0x80, 0x01, 0x80, 0x00])"
proof -
  have b: "bigIntToBytes 7 = [0x07]"
    by (simp add: bigIntToBytes_def encodeInt_small)
  have w: "wire (VInteger 7) = [0x02, 0x01, 0x07]" by (simp add: b varUint_def)
  have s: "leafVal (chainStore 2 (IntegerType 7)) (IntegerType 7) = Some (VInteger 7)"
    by (simp add: leafVal_def)
  from nested_array_depth_limit [of 2 3 1048576 0 "IntegerType 7" "VInteger 7" 0]
    nested_array_depth_limit [of 2 3 1048576 0 "ArrayType 3" "VInteger 7" 0]
    nested_array_depth_limit [of 2 2 1048576 0 "IntegerType 7" "VInteger 7" 0] s w
  show ?thesis by (simp add: chainItem_def numeral_2_eq_2 numeral_3_eq_3 varUint_def b)
qed

theorem nested_array_depth_limit_counterexample:
  "jsArrays (chainStore 2 (ArrayType 2)) 0 = [ArrayType 1] \<and>
   jsArrays (chainStore 2 (ArrayType 2)) 1 = [ArrayType 2] \<and>
   jsArrays (chainStore 2 (ArrayType 2)) 2 = [] \<and>
   serializeStackItem 2 1048576 3 (chainStore 2 (ArrayType 2)) (ArrayType 0) =
     Some (Inr [0x80, 0x01, 0x80, 0x01, 0x80, 0x00])"
proof -
  have "serializeStackItem 2 1048576 (Suc 2 + 0) (chainStore 2 (ArrayType 2))
      (chainItem 2 (ArrayType 2) 0) = Some (Inr (nestedBytes 2))"
    by (rule empty_chain_serialized) simp_all
  then show ?thesis by (simp add: chainItem_def numeral_2_eq_2 numeral_3_eq_3)
qed


section \<open>Map keys with the same string form\<close>

lemma toString_FF: "toString [0xFF] = [0xFFFD]" "toString [0xFE] = [0xFFFD]"
  by (simp_all add: toString_def utf8Lead_def utf16Units_def)

lemma bigIntToBytes_small: "bigIntToBytes 1 = [1]" "bigIntToBytes 2 = [2]"
  by (simp_all add: bigIntToBytes_def encodeInt_small)

lemma within_scalar [simp]:
  "withinDepth st k (ByteArrayType b)" "withinDepth st k (IntegerType v)" "withinDepth st k (BooleanType t)"
  by (cases k; simp add: withinDepth.simps)+

lemma emitted_colliding:
  "emitted (Suc (Suc k)) collidingStore (MapType 0) =
     Some (VMap [(VByteArray [0xFE], VInteger 2), (VByteArray [0xFE], VInteger 2)])"
  by (simp add: emitted.simps(2) collidingStore_def keyString_def isKeyType_def toString_FF
      emitEntry_def pairOption_def Let_def)

lemma wire_colliding:
  "wire (VMap [(VByteArray [0xFE], VInteger 2), (VByteArray [0xFE], VInteger 2)]) =
     [0x82, 0x02, 0x00, 0x01, 0xFE, 0x02, 0x01, 0x02, 0x00, 0x01, 0xFE, 0x02, 0x01, 0x02]"
  by (simp add: varUint_def bigIntToBytes_small)

text \<open>
  C4. A Map whose two keys are the ByteArrays \<open>[0xFF]\<close> and \<open>[0xFE]\<close>: different byte
  sequences, neither of them well-formed UTF-8, so \<open>toString\<close> turns both into the one
  string U+FFFD. \<open>keyMap\<close> keeps the later key for that string and \<open>unsortKey\<close> holds the
  string twice: the serializer succeeds, writes the count 2, and emits the entry of
  \<open>[0xFE]\<close> twice and the entry of \<open>[0xFF]\<close> not at all. Decoding the bytes gives a Map
  without the first entry.
\<close>

theorem colliding_keys_duplicate_entry:
  "1 \<le> D \<and> 14 \<le> S \<longrightarrow>
     jsMaps collidingStore 0 =
       [(ByteArrayType [0xFF], IntegerType 1), (ByteArrayType [0xFE], IntegerType 2)] \<and>
     [0xFF :: byte] \<noteq> [0xFE] \<and> toString [0xFF] = toString [0xFE] \<and>
     serializeStackItem D S (Suc (Suc k)) collidingStore (MapType 0) =
       Some (Inr [0x82, 0x02, 0x00, 0x01, 0xFE, 0x02, 0x01, 0x02, 0x00, 0x01, 0xFE, 0x02, 0x01, 0x02]) \<and>
     deserializeStackItem (Suc (Suc j))
       [0x82, 0x02, 0x00, 0x01, 0xFE, 0x02, 0x01, 0x02, 0x00, 0x01, 0xFE, 0x02, 0x01, 0x02] =
       Some (Inr (VMap [(VByteArray [0xFE], VInteger 2), (VByteArray [0xFE], VInteger 2)]))"
proof (intro impI conjI)
  assume a: "1 \<le> D \<and> 14 \<le> S"
  show "jsMaps collidingStore 0 =
       [(ByteArrayType [0xFF], IntegerType 1), (ByteArrayType [0xFE], IntegerType 2)]"
    by (simp add: collidingStore_def)
  show "[0xFF :: byte] \<noteq> [0xFE]" by simp
  show "toString [0xFF] = toString [0xFE]" by (simp add: toString_FF)
  from a obtain d where "D = Suc d" by (cases D) auto
  then have "withinDepth collidingStore D (MapType 0)"
    by (simp add: withinDepth.simps collidingStore_def)
  then have g: "\<not> circularRefAndDepthDetection D collidingStore (MapType 0)"
    by (simp add: detection_iff_within)
  let ?V = "VMap [(VByteArray [0xFE], VInteger 2), (VByteArray [0xFE], VInteger 2)]"
  have "length (wire ?V) \<le> S" using a by (simp only: wire_colliding) simp
  with emitted_colliding [of k]
  have "serializeStackItemInternal S (Suc (Suc k)) collidingStore (MapType 0) [] = Some (Inr (wire ?V))"
    using serialize_iff_emitted [of S "Suc (Suc k)" collidingStore "MapType 0" "wire ?V"] by blast
  with g show "serializeStackItem D S (Suc (Suc k)) collidingStore (MapType 0) =
       Some (Inr [0x82, 0x02, 0x00, 0x01, 0xFE, 0x02, 0x01, 0x02, 0x00, 0x01, 0xFE, 0x02, 0x01, 0x02])"
    by (simp only: serializeStackItem_def wire_colliding if_False)
  show "deserializeStackItem (Suc (Suc j))
       [0x82, 0x02, 0x00, 0x01, 0xFE, 0x02, 0x01, 0x02, 0x00, 0x01, 0xFE, 0x02, 0x01, 0x02] =
       Some (Inr (VMap [(VByteArray [0xFE], VInteger 2), (VByteArray [0xFE], VInteger 2)]))"
    unfolding wire_colliding [symmetric]
    using deserialize_wire
      [of "VMap [(VByteArray [0xFE], VInteger 2), (VByteArray [0xFE], VInteger 2)]" "Suc (Suc j)" "[]"]
    by (simp add: deserializeStackItem_def andThen_def depthVal.simps del: wire.simps)
qed

theorem colliding_keys_duplicate_entry_witness:
  "(1 :: nat) \<le> 10 \<and> (14 :: nat) \<le> 1048576 \<and>
   serializeStackItem 10 1048576 2 collidingStore (MapType 0) =
     Some (Inr [0x82, 0x02, 0x00, 0x01, 0xFE, 0x02, 0x01, 0x02, 0x00, 0x01, 0xFE, 0x02, 0x01, 0x02]) \<and>
   deserializeStackItem 2
     [0x82, 0x02, 0x00, 0x01, 0xFE, 0x02, 0x01, 0x02, 0x00, 0x01, 0xFE, 0x02, 0x01, 0x02] =
     Some (Inr (VMap [(VByteArray [0xFE], VInteger 2), (VByteArray [0xFE], VInteger 2)]))"
  using colliding_keys_duplicate_entry [of 10 1048576 0 0]
  by (simp add: numeral_2_eq_2)


section \<open>The order of Map entries\<close>

lemma collectKeys_Inr:
  "collectKeys es i u k = Inr (u', k') \<Longrightarrow>
   u' = u @ map entryKey es \<and> (\<forall>e \<in> set es. validKey (fst e))"
  by (induction es i u k rule: collectKeys.induct)
     (auto simp: Let_def entryKey_def validKey_def split: if_splits)

lemma collectKeys_other:
  "collectKeys es i u k = Inr (u', k') \<Longrightarrow> s \<notin> entryKey ` set es \<Longrightarrow> k' s = k s"
  by (induction es i u k rule: collectKeys.induct)
     (auto simp: Let_def entryKey_def split: if_splits)

lemma collectKeys_index:
  "collectKeys es i u k = Inr (u', k') \<Longrightarrow> distinct (map entryKey es) \<Longrightarrow> j < length es \<Longrightarrow>
   k' (entryKey (es ! j)) = Some (i + j)"
proof (induction es i u k arbitrary: j rule: collectKeys.induct)
  case (1 i u k)
  then show ?case by simp
next
  case (2 key v es i u k)
  from "2.prems"(1) have valid: "isKeyType key" "keyString key \<noteq> []"
    and rest: "collectKeys es (Suc i) (u @ [keyString key]) (k(keyString key \<mapsto> i)) = Inr (u', k')"
    by (auto simp: Let_def split: if_splits)
  show ?case
  proof (cases j)
    case 0
    from "2.prems"(2) have "keyString key \<notin> entryKey ` set es" by (auto simp: entryKey_def)
    from collectKeys_other [OF rest this] 0 show ?thesis by (simp add: entryKey_def)
  next
    case (Suc j')
    with "2.prems" have "distinct (map entryKey es)" "j' < length es" by simp_all
    from "2.IH" [OF valid(1) refl valid(2) rest this] Suc show ?thesis by simp
  qed
qed

lemma collectKeys_valid:
  "\<forall>e \<in> set es. validKey (fst e) \<Longrightarrow> \<exists>k'. collectKeys es i u k = Inr (u @ map entryKey es, k')"
  by (induction es i u k rule: collectKeys.induct)
     (auto simp: Let_def entryKey_def validKey_def)

lemma insort_map_key: "insort (f x) (map f xs) = map f (insort_key f x xs)"
  by (induction xs) simp_all

lemma sort_map_key: "sort (map f xs) = map f (sort_key f xs)"
  by (induction xs) (simp_all add: insort_map_key)

lemma serializeEntries_pairs:
  "\<forall>e \<in> set xs. \<exists>j < length es. km (entryKey e) = Some j \<and> es ! j = e \<Longrightarrow>
   serializeEntries S n st es km (map entryKey xs) w = serializePairs S n st xs w"
proof (induction xs arbitrary: w)
  case Nil
  then show ?case by simp
next
  case (Cons x xs)
  then obtain j where j: "j < length es" "km (entryKey x) = Some j" "es ! j = x" by auto
  have "serializeEntries S n st es km (map entryKey xs) = serializePairs S n st xs"
    using Cons.IH Cons.prems by (intro ext) simp
  with j show ?case by simp
qed

lemma serialize_Map_sorted:
  assumes valid: "\<forall>e \<in> set (jsMaps st m). validKey (fst e)"
    and dist: "distinct (map entryKey (jsMaps st m))"
  shows "serializeStackItemInternal S (Suc n) st (MapType m) w =
           andThen (mapHeader S w (length (jsMaps st m)))
             (\<lambda>w2. serializePairs S n st (sort_key entryKey (jsMaps st m)) w2)"
proof -
  let ?es = "jsMaps st m"
  from collectKeys_valid [OF valid, of 0 "[]" Map.empty]
  obtain km where km: "collectKeys ?es 0 [] Map.empty = Inr (map entryKey ?es, km)" by auto
  have idx: "\<forall>e \<in> set (sort_key entryKey ?es). \<exists>j < length ?es. km (entryKey e) = Some j \<and> ?es ! j = e"
  proof
    fix e assume "e \<in> set (sort_key entryKey ?es)"
    then have "e \<in> set ?es" by simp
    then obtain j where j: "j < length ?es" "?es ! j = e" by (auto simp: in_set_conv_nth)
    from collectKeys_index [OF km dist j(1)] j
    show "\<exists>j < length ?es. km (entryKey e) = Some j \<and> ?es ! j = e" by auto
  qed
  have entries: "serializeEntries S n st ?es km (sort (map entryKey ?es)) =
      serializePairs S n st (sort_key entryKey ?es)"
    unfolding sort_map_key by (intro ext) (rule serializeEntries_pairs [OF idx])
  show ?thesis
    by (cases "writeUint8 S w 0x82"; cases "writeVarUint S (projr (writeUint8 S w 0x82)) (length ?es)")
       (simp_all add: serializeStackItemInternal.simps(2) km entries mapHeader_def andThen_def
          rethrow_def bindE_def)
qed


lemma withinDepth_Map_set:
  "set (jsMaps st m') = set (jsMaps st m) \<Longrightarrow>
   withinDepth st k (MapType m') = withinDepth st k (MapType m)"
  by (cases k) (auto simp: withinDepth.simps)

text \<open>
  C3, as the code has it. For a Map whose keys are ByteArrays or Integers with non-empty
  string forms that are pairwise distinct, the Map branch writes the tag and the count and
  then serializes the entries key-then-value in ascending order of the string forms of
  their keys (\<open>toString\<close> of the key bytes, compared by UTF-16 code unit); the order is a
  permutation of the entries, so a Map holding the same entries in another insertion
  order is serialized to the same result.
\<close>

theorem map_entries_sorted_by_key_string:
  assumes valid: "\<forall>e \<in> set (jsMaps st m). validKey (fst e)"
    and dist: "distinct (map entryKey (jsMaps st m))"
  shows "serializeStackItemInternal S (Suc n) st (MapType m) w =
           andThen (mapHeader S w (length (jsMaps st m)))
             (serializePairs S n st (sort_key entryKey (jsMaps st m))) \<and>
         sorted (map entryKey (sort_key entryKey (jsMaps st m))) \<and>
         mset (sort_key entryKey (jsMaps st m)) = mset (jsMaps st m) \<and>
         (mset (jsMaps st m') = mset (jsMaps st m) \<longrightarrow>
            serializeStackItem D S fuel st (MapType m') = serializeStackItem D S fuel st (MapType m))"
proof (intro conjI impI)
  show "serializeStackItemInternal S (Suc n) st (MapType m) w =
           andThen (mapHeader S w (length (jsMaps st m)))
             (serializePairs S n st (sort_key entryKey (jsMaps st m)))"
    by (rule serialize_Map_sorted [OF valid dist])
next
  assume eq: "mset (jsMaps st m') = mset (jsMaps st m)"
  then have sets: "set (jsMaps st m') = set (jsMaps st m)" by (rule mset_eq_setD)
  from eq have len: "length (jsMaps st m') = length (jsMaps st m)" by (rule mset_eq_length)
  from sets valid have valid': "\<forall>e \<in> set (jsMaps st m'). validKey (fst e)" by simp
  from eq have "mset (map entryKey (jsMaps st m')) = mset (map entryKey (jsMaps st m))" by simp
  with dist have dist': "distinct (map entryKey (jsMaps st m'))"
    using mset_eq_imp_distinct_iff by blast
  from dist' have "inj_on entryKey (set (jsMaps st m'))" by (simp add: distinct_map)
  with eq have sorted: "sort_key entryKey (jsMaps st m') = sort_key entryKey (jsMaps st m)"
    by (rule sort_key_eq_sort_key)
  have "serializeStackItemInternal S fuel st (MapType m') [] =
        serializeStackItemInternal S fuel st (MapType m) []"
  proof (cases fuel)
    case 0
    then show ?thesis by simp
  next
    case (Suc k)
    show ?thesis
      unfolding Suc serialize_Map_sorted [OF valid dist] serialize_Map_sorted [OF valid' dist']
      by (simp add: sorted len)
  qed
  then show "serializeStackItem D S fuel st (MapType m') = serializeStackItem D S fuel st (MapType m)"
    by (simp add: serializeStackItem_def detection_iff_within withinDepth_Map_set [OF sets])
qed simp_all

lemma toString_ascii: "toString [0x61] = [0x61]" "toString [0x62] = [0x62]"
  by (simp_all add: toString_def utf8Lead_def utf16Units_def)

lemma toString_E000:
  "toString [0xEE, 0x80, 0x80] = [0xE000]"
  "toString [0xF0, 0x90, 0x80, 0x80] = [0xD800, 0xDC00]"
  by (simp_all add: toString_def utf8Lead_def utf16Units_def)

lemma serialize_closed:
  assumes "withinDepth st D item" and "emitted fuel st item = Some t" and "length (wire t) \<le> S"
  shows "serializeStackItem D S fuel st item = Some (Inr (wire t))"
  using assms serialize_iff_emitted [of S fuel st item "wire t"]
  by (simp add: serializeStackItem_def detection_iff_within del: wire.simps)



lemma ab_valid: "\<forall>e \<in> set (jsMaps abStore 0). validKey (fst e)"
  by (simp add: abStore_def validKey_def isKeyType_def keyString_def toString_ascii)

lemma ab_distinct: "distinct (map entryKey (jsMaps abStore 0))"
  by (simp add: abStore_def entryKey_def keyString_def toString_ascii)

lemma ab_sorted:
  "sort_key entryKey (jsMaps abStore 0) =
     [(ByteArrayType [0x61], IntegerType 1), (ByteArrayType [0x62], IntegerType 2)]"
  by (simp add: abStore_def entryKey_def keyString_def toString_ascii)

lemma ab_emitted:
  "emitted (Suc (Suc 0)) abStore (MapType 0) =
     Some (VMap [(VByteArray [0x61], VInteger 1), (VByteArray [0x62], VInteger 2)])"
  by (simp add: emitted.simps(2) abStore_def keyString_def isKeyType_def toString_ascii
      emitEntry_def pairOption_def Let_def)


lemma ab_serialized:
  "serializeStackItem 10 1048576 2 abStore (MapType 0) =
     Some (Inr [0x82, 0x02, 0x00, 0x01, 0x61, 0x02, 0x01, 0x01, 0x00, 0x01, 0x62, 0x02, 0x01, 0x02])"
proof -
  let ?V = "VMap [(VByteArray [0x61], VInteger 1), (VByteArray [0x62], VInteger 2)]"
  have w: "wire ?V = [0x82, 0x02, 0x00, 0x01, 0x61, 0x02, 0x01, 0x01, 0x00, 0x01, 0x62, 0x02, 0x01, 0x02]"
    by (simp add: varUint_def bigIntToBytes_small)
  have d: "withinDepth abStore 10 (MapType 0)"
    by (simp add: eval_nat_numeral withinDepth.simps(2) abStore_def)
  have e: "emitted 2 abStore (MapType 0) = Some ?V"
    using ab_emitted by (simp add: numeral_2_eq_2)
  have l: "length (wire ?V) \<le> 1048576" by (simp only: w) simp
  from serialize_closed [OF d e l] show ?thesis by (simp only: w)
qed

theorem map_entries_sorted_by_key_string_witness:
  "jsMaps abStore 0 = [(ByteArrayType [0x62], IntegerType 2), (ByteArrayType [0x61], IntegerType 1)] \<and>
   validKey (ByteArrayType [0x62]) \<and> validKey (ByteArrayType [0x61]) \<and>
   distinct (map entryKey (jsMaps abStore 0)) \<and>
   mset (jsMaps abStore 1) = mset (jsMaps abStore 0) \<and>
   sort_key entryKey (jsMaps abStore 0) =
     [(ByteArrayType [0x61], IntegerType 1), (ByteArrayType [0x62], IntegerType 2)] \<and>
   serializeStackItem 10 1048576 2 abStore (MapType 0) =
     Some (Inr [0x82, 0x02, 0x00, 0x01, 0x61, 0x02, 0x01, 0x01, 0x00, 0x01, 0x62, 0x02, 0x01, 0x02]) \<and>
   serializeStackItem 10 1048576 2 abStore (MapType 1) =
     Some (Inr [0x82, 0x02, 0x00, 0x01, 0x61, 0x02, 0x01, 0x01, 0x00, 0x01, 0x62, 0x02, 0x01, 0x02])"
proof -
  have m: "mset (jsMaps abStore 1) = mset (jsMaps abStore 0)"
    by (simp add: abStore_def)
  from map_entries_sorted_by_key_string [OF ab_valid ab_distinct, of 1048576 1 "[]" 1 10 2] m
  have "serializeStackItem 10 1048576 2 abStore (MapType 1) =
        serializeStackItem 10 1048576 2 abStore (MapType 0)" by blast
  moreover have "jsMaps abStore 0 =
      [(ByteArrayType [0x62], IntegerType 2), (ByteArrayType [0x61], IntegerType 1)]"
    by (simp add: abStore_def)
  moreover from ab_valid this have "validKey (ByteArrayType [0x62])" "validKey (ByteArrayType [0x61])"
    by simp_all
  ultimately show ?thesis using ab_distinct m ab_sorted ab_serialized by (simp only: simp_thms)
qed


lemma order_serialized:
  "serializeStackItem 10 1048576 2 orderStore (MapType 0) =
     Some (Inr [0x82, 0x02, 0x00, 0x04, 0xF0, 0x90, 0x80, 0x80, 0x02, 0x01, 0x02,
                0x00, 0x03, 0xEE, 0x80, 0x80, 0x02, 0x01, 0x01])"
proof -
  let ?V = "VMap [(VByteArray [0xF0, 0x90, 0x80, 0x80], VInteger 2),
                  (VByteArray [0xEE, 0x80, 0x80], VInteger 1)]"
  have w: "wire ?V = [0x82, 0x02, 0x00, 0x04, 0xF0, 0x90, 0x80, 0x80, 0x02, 0x01, 0x02,
                0x00, 0x03, 0xEE, 0x80, 0x80, 0x02, 0x01, 0x01]"
    by (simp add: varUint_def bigIntToBytes_small)
  have d: "withinDepth orderStore 10 (MapType 0)"
    by (simp add: eval_nat_numeral withinDepth.simps(2) orderStore_def)
  have "emitted (Suc (Suc 0)) orderStore (MapType 0) = Some ?V"
    by (simp add: emitted.simps(2) orderStore_def keyString_def isKeyType_def
        toString_E000 emitEntry_def pairOption_def Let_def)
  then have e: "emitted 2 orderStore (MapType 0) = Some ?V" by (simp only: numeral_2_eq_2)
  have l: "length (wire ?V) \<le> 1048576" by (simp only: w) simp
  from serialize_closed [OF d e l] show ?thesis by (simp only: w)
qed

lemma colliding2_serialized:
  "serializeStackItem 10 1048576 2 collidingStore (MapType 0) =
     Some (Inr [0x82, 0x02, 0x00, 0x01, 0xFE, 0x02, 0x01, 0x02, 0x00, 0x01, 0xFE, 0x02, 0x01, 0x02])"
  "serializeStackItem 10 1048576 2 collidingStore (MapType 1) =
     Some (Inr [0x82, 0x02, 0x00, 0x01, 0xFF, 0x02, 0x01, 0x01, 0x00, 0x01, 0xFF, 0x02, 0x01, 0x01])"
proof -
  let ?V = "VMap [(VByteArray [0xFE], VInteger 2), (VByteArray [0xFE], VInteger 2)]"
  let ?W = "VMap [(VByteArray [0xFF], VInteger 1), (VByteArray [0xFF], VInteger 1)]"
  have w: "wire ?V = [0x82, 0x02, 0x00, 0x01, 0xFE, 0x02, 0x01, 0x02, 0x00, 0x01, 0xFE, 0x02, 0x01, 0x02]"
    "wire ?W = [0x82, 0x02, 0x00, 0x01, 0xFF, 0x02, 0x01, 0x01, 0x00, 0x01, 0xFF, 0x02, 0x01, 0x01]"
    by (simp_all add: varUint_def bigIntToBytes_small)
  have d: "withinDepth collidingStore 10 (MapType 0)" "withinDepth collidingStore 10 (MapType 1)"
    by (simp_all add: eval_nat_numeral withinDepth.simps(2) collidingStore_def)
  have "emitted (Suc (Suc 0)) collidingStore (MapType 0) = Some ?V"
    "emitted (Suc (Suc 0)) collidingStore (MapType 1) = Some ?W"
    by (simp_all add: emitted.simps(2) collidingStore_def keyString_def isKeyType_def
        toString_FF emitEntry_def pairOption_def Let_def)
  then have e: "emitted 2 collidingStore (MapType 0) = Some ?V"
    "emitted 2 collidingStore (MapType 1) = Some ?W"
    by (simp_all only: numeral_2_eq_2)
  have l: "length (wire ?V) \<le> 1048576" "length (wire ?W) \<le> 1048576" by (simp_all only: w) simp_all
  from serialize_closed [OF d(1) e(1) l(1)]
  show "serializeStackItem 10 1048576 2 collidingStore (MapType 0) =
     Some (Inr [0x82, 0x02, 0x00, 0x01, 0xFE, 0x02, 0x01, 0x02, 0x00, 0x01, 0xFE, 0x02, 0x01, 0x02])"
    by (simp only: w)
  from serialize_closed [OF d(2) e(2) l(2)]
  show "serializeStackItem 10 1048576 2 collidingStore (MapType 1) =
     Some (Inr [0x82, 0x02, 0x00, 0x01, 0xFF, 0x02, 0x01, 0x01, 0x00, 0x01, 0xFF, 0x02, 0x01, 0x01])"
    by (simp only: w)
qed

theorem map_entries_sorted_by_key_string_counterexample:
  "serializeStackItem 10 1048576 2 orderStore (MapType 0) =
     Some (Inr [0x82, 0x02, 0x00, 0x04, 0xF0, 0x90, 0x80, 0x80, 0x02, 0x01, 0x02,
                0x00, 0x03, 0xEE, 0x80, 0x80, 0x02, 0x01, 0x01]) \<and>
   [0xEE, 0x80, 0x80 :: byte] < [0xF0, 0x90, 0x80, 0x80] \<and>
   mset (jsMaps collidingStore 1) = mset (jsMaps collidingStore 0) \<and>
   serializeStackItem 10 1048576 2 collidingStore (MapType 1) \<noteq>
     serializeStackItem 10 1048576 2 collidingStore (MapType 0)"
proof (intro conjI)
  show "[0xEE, 0x80, 0x80 :: byte] < [0xF0, 0x90, 0x80, 0x80]" by simp
  show "mset (jsMaps collidingStore 1) = mset (jsMaps collidingStore 0)"
    by (simp add: collidingStore_def)
  show "serializeStackItem 10 1048576 2 collidingStore (MapType 1) \<noteq>
     serializeStackItem 10 1048576 2 collidingStore (MapType 0)"
    unfolding colliding2_serialized by simp
qed (rule order_serialized)


section \<open>Serialize, then deserialize\<close>

lemma those_map_iff:
  "those (map f xs) = Some ys \<longleftrightarrow> (\<forall>x \<in> set xs. f x \<noteq> None) \<and> ys = map (the \<circ> f) xs"
proof (induction xs arbitrary: ys)
  case Nil
  then show ?case by auto
next
  case (Cons x xs)
  then show ?case by (cases "f x") auto
qed

lemma insort_key_map:
  "insort_key f (h x) (map h xs) = map h (insort_key (\<lambda>y. f (h y)) x xs)"
  by (induction xs) simp_all

lemma sort_key_map: "sort_key f (map h xs) = map h (sort_key (\<lambda>y. f (h y)) xs)"
  by (induction xs) (simp_all add: insort_key_map)

lemma insort_key_cong:
  "f x = g x \<Longrightarrow> \<forall>y \<in> set ys. f y = g y \<Longrightarrow> insort_key f x ys = insort_key g x ys"
  by (induction ys) simp_all

lemma sort_key_cong: "\<forall>x \<in> set xs. f x = g x \<Longrightarrow> sort_key f xs = sort_key g xs"
proof (induction xs)
  case Nil
  then show ?case by simp
next
  case (Cons x xs)
  then have "sort_key f xs = sort_key g xs" by simp
  moreover have "insort_key f x (sort_key g xs) = insort_key g x (sort_key g xs)"
    using Cons.prems by (intro insort_key_cong) simp_all
  ultimately show ?case by simp
qed

lemma emitted_depth: "emitted n st v = Some t \<Longrightarrow> depthVal t \<le> n"
proof (induction n arbitrary: v t)
  case 0
  then show ?case by simp
next
  case (Suc n)
  have kids: "depthVal (the (emitted n st x)) \<le> n" if "emitted n st x \<noteq> None" for x
    using Suc.IH [of x] that by auto
  show ?case
  proof (cases v)
    case (ArrayType a)
    with Suc.prems obtain ts where ts: "those (map (emitted n st) (jsArrays st a)) = Some ts"
      and t: "t = VArray ts" by (auto simp: emitted.simps(2))
    from ts have "\<forall>x \<in> set ts. depthVal x \<le> n"
      using kids by (auto simp: those_map_iff)
    then show ?thesis unfolding t by (simp add: depthVal_Array)
  next
    case (StructType a)
    with Suc.prems obtain ts where ts: "those (map (emitted n st) (jsArrays st a)) = Some ts"
      and t: "t = VStruct ts" by (auto simp: emitted.simps(2))
    from ts have "\<forall>x \<in> set ts. depthVal x \<le> n"
      using kids by (auto simp: those_map_iff)
    then show ?thesis unfolding t by (simp add: depthVal_Struct)
  next
    case (MapType m)
    with Suc.prems obtain u km tes where
      tes: "those (map (emitEntry (emitted n st) (jsMaps st m) km) (sort u)) = Some tes"
      and t: "t = VMap tes"
      by (auto simp: emitted.simps(2) split: sum.splits)
    have "depthVal (fst p) \<le> n \<and> depthVal (snd p) \<le> n" if "p \<in> set tes" for p
    proof -
      from that tes obtain s where "emitEntry (emitted n st) (jsMaps st m) km s = Some p"
        by (auto simp: those_map_iff)
      then obtain i where "emitted n st (fst (jsMaps st m ! i)) = Some (fst p)"
        "emitted n st (snd (jsMaps st m ! i)) = Some (snd p)"
        by (auto simp: emitEntry_def pairOption_Some split: option.splits if_splits)
      then show ?thesis using Suc.IH by blast
    qed
    then show ?thesis unfolding t by (auto simp: depthVal_Map)
  qed (use Suc.prems in \<open>auto simp: emitted.simps(2) depthVal.simps\<close>)
qed

lemma wire_not_Nil: "wire t \<noteq> []"
  by (cases t) simp_all

lemma length_concat_wire: "length ts \<le> length (concat (map wire ts))"
proof (induction ts)
  case Nil
  then show ?case by simp
next
  case (Cons t ts)
  obtain n where "length (wire t) = Suc n" using wire_not_Nil [of t] by (cases "wire t") auto
  with Cons show ?case by simp
qed

lemma length_concat_elem: "t \<in> set ts \<Longrightarrow> length (f t) \<le> length (concat (map f ts))"
  by (induction ts) auto

lemma length_concat_pairs:
  "length es \<le> length (concat (map (\<lambda>(k, v). wire k @ wire v) es))"
proof (induction es)
  case Nil
  then show ?case by simp
next
  case (Cons e es)
  obtain n where "length (wire (fst e)) = Suc n"
    using wire_not_Nil [of "fst e"] by (cases "wire (fst e)") auto
  with Cons show ?case by (cases e) simp
qed

lemma wfVal_of_length: "length (wire t) < 2 ^ 64 \<Longrightarrow> wfVal t"
proof (induction t)
  case (VArray ts)
  have "length ts < 2 ^ 64" using VArray.prems length_concat_wire [of ts] by simp
  moreover have "wfVal t" if "t \<in> set ts" for t
    using VArray.IH [OF that] VArray.prems length_concat_elem [OF that, of wire] by simp
  ultimately show ?case by simp
next
  case (VStruct ts)
  have "length ts < 2 ^ 64" using VStruct.prems length_concat_wire [of ts] by simp
  moreover have "wfVal t" if "t \<in> set ts" for t
    using VStruct.IH [OF that] VStruct.prems length_concat_elem [OF that, of wire] by simp
  ultimately show ?case by simp
next
  case (VMap es)
  have "length es < 2 ^ 64" using VMap.prems length_concat_pairs [of es] by simp
  moreover have "wfVal k \<and> wfVal v" if "(k, v) \<in> set es" for k v
  proof -
    from length_concat_elem [OF that, of "\<lambda>(k, v). wire k @ wire v"] VMap.prems
    have "length (wire k) < 2 ^ 64" "length (wire v) < 2 ^ 64" by simp_all
    moreover have "k \<in> Basic_BNFs.fsts (k, v)" "v \<in> Basic_BNFs.snds (k, v)" by simp_all
    ultimately show ?thesis using VMap.IH that by blast
  qed
  ultimately show ?case by auto
qed simp_all


lemma distinctKeys_child: "distinctKeys st v \<Longrightarrow> child st v x \<Longrightarrow> distinctKeys st x"
  unfolding distinctKeys_def by (meson converse_rtranclp_into_rtranclp)

lemma distinctKeys_Map: "distinctKeys st (MapType m) \<Longrightarrow> distinct (map entryKey (jsMaps st m))"
  unfolding distinctKeys_def by blast

lemma emitted_key:
  "validKey k \<Longrightarrow> emitted n st k = Some t \<Longrightarrow> valKeyString t = keyString k"
  by (cases n; cases k)
     (auto simp: validKey_def isKeyType_def emitted.simps(2) valKeyString_def keyString_def)

lemma emitEntry_sorted:
  assumes km: "collectKeys es 0 [] Map.empty = Inr (u, km)"
    and dist: "distinct (map entryKey es)"
  shows "map (emitEntry E es km) (sort u) =
           map (\<lambda>e. pairOption (E (fst e)) (E (snd e))) (sort_key entryKey es)"
proof -
  from collectKeys_Inr [OF km] have u: "u = map entryKey es" by simp
  have "emitEntry E es km (entryKey e) = pairOption (E (fst e)) (E (snd e))"
    if "e \<in> set (sort_key entryKey es)" for e
  proof -
    from that have "e \<in> set es" by simp
    then obtain j where j: "j < length es" "es ! j = e" by (auto simp: in_set_conv_nth)
    from collectKeys_index [OF km dist j(1)] j show ?thesis by (simp add: emitEntry_def)
  qed
  then show ?thesis unfolding u sort_map_key by simp
qed

lemma emitted_canonical:
  "emitted n st v = Some t' \<Longrightarrow> distinctKeys st v \<Longrightarrow>
   \<exists>t. treeOf n st v = Some t \<and> t' = canonical t"
proof (induction n arbitrary: v t')
  case 0
  then show ?case by simp
next
  case (Suc n)
  let ?E = "emitted n st" and ?T = "treeOf n st"
  have kid: "?T x \<noteq> None \<and> the (?E x) = canonical (the (?T x))"
    if "child st v x" "?E x \<noteq> None" for x
  proof -
    from that(2) obtain tx where tx: "?E x = Some tx" by auto
    from Suc.IH [OF tx distinctKeys_child [OF Suc.prems(2) that(1)]] tx show ?thesis by auto
  qed
  show ?case
  proof (cases v)
    case (ArrayType a)
    let ?xs = "jsArrays st a"
    from Suc.prems(1) ArrayType
    have E: "\<forall>x \<in> set ?xs. ?E x \<noteq> None" and t': "t' = VArray (map (the \<circ> ?E) ?xs)"
      by (auto simp: emitted.simps(2) those_map_iff)
    have k: "?T x \<noteq> None \<and> the (?E x) = canonical (the (?T x))" if "x \<in> set ?xs" for x
      using kid [of x] that E unfolding ArrayType by (auto intro: child.intros)
    then have "those (map ?T ?xs) = Some (map (the \<circ> ?T) ?xs)" by (simp add: those_map_iff)
    then have "treeOf (Suc n) st v = Some (VArray (map (the \<circ> ?T) ?xs))"
      unfolding ArrayType by (simp add: treeOf.simps(2))
    moreover have "t' = canonical (VArray (map (the \<circ> ?T) ?xs))"
      unfolding t' using k by simp
    ultimately show ?thesis by blast
  next
    case (StructType a)
    let ?xs = "jsArrays st a"
    from Suc.prems(1) StructType
    have E: "\<forall>x \<in> set ?xs. ?E x \<noteq> None" and t': "t' = VStruct (map (the \<circ> ?E) ?xs)"
      by (auto simp: emitted.simps(2) those_map_iff)
    have k: "?T x \<noteq> None \<and> the (?E x) = canonical (the (?T x))" if "x \<in> set ?xs" for x
      using kid [of x] that E unfolding StructType by (auto intro: child.intros)
    then have "those (map ?T ?xs) = Some (map (the \<circ> ?T) ?xs)" by (simp add: those_map_iff)
    then have "treeOf (Suc n) st v = Some (VStruct (map (the \<circ> ?T) ?xs))"
      unfolding StructType by (simp add: treeOf.simps(2))
    moreover have "t' = canonical (VStruct (map (the \<circ> ?T) ?xs))"
      unfolding t' using k by simp
    ultimately show ?thesis by blast
  next
    case (MapType m)
    let ?es = "jsMaps st m"
    define g where "g = (\<lambda>e. pairOption (?E (fst e)) (?E (snd e)))"
    define h where "h = (\<lambda>e. pairOption (?T (fst e)) (?T (snd e)))"
    define cc where "cc = (\<lambda>p. (canonical (fst p), canonical (snd p)))"
    from Suc.prems(1) MapType obtain u km tes' where
      km: "collectKeys ?es 0 [] Map.empty = Inr (u, km)"
      and em: "those (map (emitEntry ?E ?es km) (sort u)) = Some tes'" "t' = VMap tes'"
      by (auto simp: emitted.simps(2) split: sum.splits)
    from Suc.prems(2) MapType have dist: "distinct (map entryKey ?es)"
      by (simp add: distinctKeys_Map)
    from collectKeys_Inr [OF km] have valid: "\<forall>e \<in> set ?es. validKey (fst e)" by simp
    from em(1) have "those (map g (sort_key entryKey ?es)) = Some tes'"
      unfolding emitEntry_sorted [OF km dist] g_def .
    then have gs: "\<forall>e \<in> set ?es. g e \<noteq> None"
      and tes: "tes' = map (the \<circ> g) (sort_key entryKey ?es)"
      by (auto simp: those_map_iff)
    have k1: "h e \<noteq> None" and k2: "the (g e) = cc (the (h e))"
      and k3: "valKeyString (fst (the (g e))) = entryKey e"
      if e: "e \<in> set ?es" for e
    proof -
      from gs e obtain ke ve where E: "?E (fst e) = Some ke" "?E (snd e) = Some ve"
        unfolding g_def by (auto simp: pairOption_def split: option.splits)
      obtain k' v' where ekv: "e = (k', v')" by (cases e)
      from e have "(k', v') \<in> set ?es" unfolding ekv .
      then have "child st (MapType m) k'" "child st (MapType m) v'"
        by (rule child_MapKey, rule child_MapValue)
      then have c: "child st v (fst e)" "child st v (snd e)"
        unfolding MapType ekv by simp_all
      from kid [OF c(1)] kid [OF c(2)] E
      obtain k0 v0 where T: "?T (fst e) = Some k0" "?T (snd e) = Some v0"
        and can: "ke = canonical k0" "ve = canonical v0" by auto
      from T show "h e \<noteq> None" by (simp add: h_def pairOption_def)
      from E T can show "the (g e) = cc (the (h e))"
        by (simp add: g_def h_def cc_def pairOption_def)
      from valid e have "validKey (fst e)" by blast
      from emitted_key [OF this E(1)] E show "valKeyString (fst (the (g e))) = entryKey e"
        by (simp add: g_def pairOption_def entryKey_def)
    qed
    from k1 have "those (map h ?es) = Some (map (the \<circ> h) ?es)" by (simp add: those_map_iff)
    then have tree: "treeOf (Suc n) st v = Some (VMap (map (the \<circ> h) ?es))"
      unfolding MapType h_def by (simp add: treeOf.simps(2))
    have ccs: "(\<lambda>(k, v). (canonical k, canonical v)) = cc"
      by (auto simp: cc_def fun_eq_iff)
    have m: "map cc (map (the \<circ> h) ?es) = map (the \<circ> g) ?es"
      using k2 by simp
    have "canonical (VMap (map (the \<circ> h) ?es)) =
        VMap (sort_key (\<lambda>e. valKeyString (fst e)) (map (the \<circ> g) ?es))"
      by (simp only: canonical.simps ccs m)
    also have "sort_key (\<lambda>e. valKeyString (fst e)) (map (the \<circ> g) ?es) =
        map (the \<circ> g) (sort_key (\<lambda>e. valKeyString (fst ((the \<circ> g) e))) ?es)"
      by (rule sort_key_map)
    also have "sort_key (\<lambda>e. valKeyString (fst ((the \<circ> g) e))) ?es = sort_key entryKey ?es"
    proof (rule sort_key_cong)
      show "\<forall>e \<in> set ?es. valKeyString (fst ((the \<circ> g) e)) = entryKey e"
        using k3 by simp
    qed
    finally have "canonical (VMap (map (the \<circ> h) ?es)) = t'"
      unfolding tes em(2) .
    with tree show ?thesis by blast
  qed (use Suc.prems in \<open>auto simp: emitted.simps(2) treeOf.simps(2)\<close>)
qed


lemma validKeys_child: "validKeys st v \<Longrightarrow> child st v x \<Longrightarrow> validKeys st x"
  unfolding validKeys_def by (meson converse_rtranclp_into_rtranclp)

lemma validKeys_Map: "validKeys st (MapType m) \<Longrightarrow> \<forall>e \<in> set (jsMaps st m). validKey (fst e)"
  unfolding validKeys_def by blast

lemma canonical_Map_sorted:
  assumes "\<And>e. e \<in> set es \<Longrightarrow> the (g e) = (canonical (fst (the (h e))), canonical (snd (the (h e))))"
    and "\<And>e. e \<in> set es \<Longrightarrow> valKeyString (fst (the (g e))) = entryKey e"
  shows "canonical (VMap (map (the \<circ> h) es)) = VMap (map (the \<circ> g) (sort_key entryKey es))"
proof -
  have ccs: "(\<lambda>(k, v). (canonical k, canonical v)) = (\<lambda>p. (canonical (fst p), canonical (snd p)))"
    by (auto simp: fun_eq_iff)
  have m: "map (\<lambda>p. (canonical (fst p), canonical (snd p))) (map (the \<circ> h) es) = map (the \<circ> g) es"
    using assms(1) by simp
  have "canonical (VMap (map (the \<circ> h) es)) =
      VMap (sort_key (\<lambda>e. valKeyString (fst e)) (map (the \<circ> g) es))"
    by (simp only: canonical.simps ccs m)
  also have "sort_key (\<lambda>e. valKeyString (fst e)) (map (the \<circ> g) es) =
      map (the \<circ> g) (sort_key (\<lambda>e. valKeyString (fst ((the \<circ> g) e))) es)"
    by (rule sort_key_map)
  also have "sort_key (\<lambda>e. valKeyString (fst ((the \<circ> g) e))) es = sort_key entryKey es"
  proof (rule sort_key_cong)
    show "\<forall>e \<in> set es. valKeyString (fst ((the \<circ> g) e)) = entryKey e"
      using assms(2) by simp
  qed
  finally show ?thesis .
qed

lemma canonical_emitted:
  "treeOf n st v = Some t \<Longrightarrow> validKeys st v \<Longrightarrow> distinctKeys st v \<Longrightarrow>
   emitted n st v = Some (canonical t)"
proof (induction n arbitrary: v t)
  case 0
  then show ?case by simp
next
  case (Suc n)
  let ?E = "emitted n st" and ?T = "treeOf n st"
  have kid: "?E x = Some (canonical tx)" if "child st v x" "?T x = Some tx" for x tx
    using Suc.IH [OF that(2) validKeys_child [OF Suc.prems(2) that(1)]
        distinctKeys_child [OF Suc.prems(3) that(1)]] .
  show ?case
  proof (cases v)
    case (ArrayType a)
    let ?xs = "jsArrays st a"
    from Suc.prems(1) ArrayType
    have T: "\<forall>x \<in> set ?xs. ?T x \<noteq> None" and t: "t = VArray (map (the \<circ> ?T) ?xs)"
      by (auto simp: treeOf.simps(2) those_map_iff)
    have k: "?E x = Some (canonical (the (?T x)))" if "x \<in> set ?xs" for x
    proof -
      from that have "child st v x" unfolding ArrayType by (rule child_Array)
      moreover from T that obtain tx where "?T x = Some tx" by auto
      ultimately show ?thesis using kid by auto
    qed
    then have "those (map ?E ?xs) = Some (map (the \<circ> ?E) ?xs)" by (simp add: those_map_iff)
    moreover have "map (the \<circ> ?E) ?xs = map canonical (map (the \<circ> ?T) ?xs)"
      using k by simp
    ultimately show ?thesis unfolding ArrayType t by (simp add: emitted.simps(2))
  next
    case (StructType a)
    let ?xs = "jsArrays st a"
    from Suc.prems(1) StructType
    have T: "\<forall>x \<in> set ?xs. ?T x \<noteq> None" and t: "t = VStruct (map (the \<circ> ?T) ?xs)"
      by (auto simp: treeOf.simps(2) those_map_iff)
    have k: "?E x = Some (canonical (the (?T x)))" if "x \<in> set ?xs" for x
    proof -
      from that have "child st v x" unfolding StructType by (rule child_Struct)
      moreover from T that obtain tx where "?T x = Some tx" by auto
      ultimately show ?thesis using kid by auto
    qed
    then have "those (map ?E ?xs) = Some (map (the \<circ> ?E) ?xs)" by (simp add: those_map_iff)
    moreover have "map (the \<circ> ?E) ?xs = map canonical (map (the \<circ> ?T) ?xs)"
      using k by simp
    ultimately show ?thesis unfolding StructType t by (simp add: emitted.simps(2))
  next
    case (MapType m)
    let ?es = "jsMaps st m"
    define g where "g = (\<lambda>e. pairOption (?E (fst e)) (?E (snd e)))"
    define h where "h = (\<lambda>e. pairOption (?T (fst e)) (?T (snd e)))"
    from Suc.prems(1) MapType
    have hs: "\<forall>e \<in> set ?es. h e \<noteq> None" and t: "t = VMap (map (the \<circ> h) ?es)"
      unfolding h_def by (auto simp: treeOf.simps(2) those_map_iff)
    from Suc.prems(2) MapType have valid: "\<forall>e \<in> set ?es. validKey (fst e)"
      by (simp add: validKeys_Map)
    from Suc.prems(3) MapType have dist: "distinct (map entryKey ?es)"
      by (simp add: distinctKeys_Map)
    from collectKeys_valid [OF valid, of 0 "[]" Map.empty]
    obtain km where km: "collectKeys ?es 0 [] Map.empty = Inr (map entryKey ?es, km)" by auto
    have k1: "g e \<noteq> None"
      and k2: "the (g e) = (canonical (fst (the (h e))), canonical (snd (the (h e))))"
      and k3: "valKeyString (fst (the (g e))) = entryKey e"
      if e: "e \<in> set ?es" for e
    proof -
      from hs e obtain k0 v0 where T: "?T (fst e) = Some k0" "?T (snd e) = Some v0"
        unfolding h_def by (auto simp: pairOption_def split: option.splits)
      obtain k' v' where ekv: "e = (k', v')" by (cases e)
      from e have "(k', v') \<in> set ?es" unfolding ekv .
      then have "child st (MapType m) k'" "child st (MapType m) v'"
        by (rule child_MapKey, rule child_MapValue)
      then have c: "child st v (fst e)" "child st v (snd e)"
        unfolding MapType ekv by simp_all
      from kid [OF c(1) T(1)] kid [OF c(2) T(2)]
      have E: "?E (fst e) = Some (canonical k0)" "?E (snd e) = Some (canonical v0)" .
      from E show "g e \<noteq> None" by (simp add: g_def pairOption_def)
      from E T show "the (g e) = (canonical (fst (the (h e))), canonical (snd (the (h e))))"
        by (simp add: g_def h_def pairOption_def)
      from valid e have "validKey (fst e)" by blast
      from emitted_key [OF this E(1)] E show "valKeyString (fst (the (g e))) = entryKey e"
        by (simp add: g_def pairOption_def entryKey_def)
    qed
    from k1 have "those (map g (sort_key entryKey ?es)) = Some (map (the \<circ> g) (sort_key entryKey ?es))"
      by (simp add: those_map_iff)
    then have "those (map (emitEntry ?E ?es km) (sort (map entryKey ?es))) =
        Some (map (the \<circ> g) (sort_key entryKey ?es))"
      unfolding emitEntry_sorted [OF km dist] g_def .
    then have "emitted (Suc n) st v = Some (VMap (map (the \<circ> g) (sort_key entryKey ?es)))"
      unfolding MapType by (simp add: emitted.simps(2) km)
    moreover have "canonical (VMap (map (the \<circ> h) ?es)) =
        VMap (map (the \<circ> g) (sort_key entryKey ?es))"
      by (rule canonical_Map_sorted) (use k2 k3 in blast)+
    ultimately show ?thesis unfolding t by simp
  qed (use Suc.prems in \<open>auto simp: emitted.simps(2) treeOf.simps(2)\<close>)
qed

lemma deserialize_emitted:
  assumes "emitted fuel st v = Some t" and "length (wire t) \<le> S" and "S < 2 ^ 64"
  shows "deserializeStackItem fuel (wire t) = Some (Inr t)"
proof -
  from assms(2,3) have "wfVal t" by (intro wfVal_of_length) simp
  from deserialize_wire [OF this emitted_depth [OF assms(1)], of "[]"]
  show ?thesis by (simp add: deserializeStackItem_def andThen_def del: wire.simps)
qed

lemma noInterop_child: "noInterop st v \<Longrightarrow> child st v x \<Longrightarrow> noInterop st x"
  unfolding noInterop_def by (meson converse_rtranclp_into_rtranclp)

lemma noInterop_self: "noInterop st v \<Longrightarrow> v \<noteq> InteropType h"
  unfolding noInterop_def by blast

lemma treeOf_Suc: "treeOf n st v = Some t \<Longrightarrow> treeOf (Suc n) st v = Some t"
proof (induction n arbitrary: v t)
  case 0
  then show ?case by simp
next
  case (Suc n)
  have kid: "treeOf (Suc n) st x = treeOf n st x" if "treeOf n st x \<noteq> None" for x
    using Suc.IH [of x] that by auto
  have arr: "map (treeOf (Suc n) st) xs = map (treeOf n st) xs"
    if "those (map (treeOf n st) xs) = Some ts" for xs ts
  proof -
    from that have "\<forall>x \<in> set xs. treeOf n st x \<noteq> None" by (auto simp: those_map_iff)
    then show ?thesis using kid by simp
  qed
  show ?case
  proof (cases v)
    case (ArrayType a)
    from Suc.prems obtain ts where A: "those (map (treeOf n st) (jsArrays st a)) = Some ts"
      and t: "t = VArray ts" unfolding ArrayType by (auto simp: treeOf.simps(2))
    have "treeOf (Suc (Suc n)) st v =
        map_option VArray (those (map (treeOf (Suc n) st) (jsArrays st a)))"
      unfolding ArrayType by (subst treeOf.simps(2)) simp
    then show ?thesis by (simp add: arr [OF A] A t)
  next
    case (StructType a)
    from Suc.prems obtain ts where A: "those (map (treeOf n st) (jsArrays st a)) = Some ts"
      and t: "t = VStruct ts" unfolding StructType by (auto simp: treeOf.simps(2))
    have "treeOf (Suc (Suc n)) st v =
        map_option VStruct (those (map (treeOf (Suc n) st) (jsArrays st a)))"
      unfolding StructType by (subst treeOf.simps(2)) simp
    then show ?thesis by (simp add: arr [OF A] A t)
  next
    case (MapType m)
    let ?h = "\<lambda>n e. pairOption (treeOf n st (fst e)) (treeOf n st (snd e))"
    from Suc.prems obtain ts where A: "those (map (?h n) (jsMaps st m)) = Some ts"
      and t: "t = VMap ts" unfolding MapType by (auto simp: treeOf.simps(2))
    have "?h (Suc n) e = ?h n e" if "e \<in> set (jsMaps st m)" for e
    proof -
      from A that have "?h n e \<noteq> None" by (auto simp: those_map_iff)
      then have "treeOf n st (fst e) \<noteq> None" "treeOf n st (snd e) \<noteq> None"
        by (auto simp: pairOption_def split: option.splits)
      then show ?thesis using kid by simp
    qed
    then have M: "map (?h (Suc n)) (jsMaps st m) = map (?h n) (jsMaps st m)" by simp
    have "treeOf (Suc (Suc n)) st v = map_option VMap (those (map (?h (Suc n)) (jsMaps st m)))"
      unfolding MapType by (subst treeOf.simps(2)) simp
    then show ?thesis by (simp add: M A t)
  next
    case (ByteArrayType b)
    with Suc.prems show ?thesis by (simp add: treeOf.simps(2))
  next
    case (BooleanType b)
    with Suc.prems show ?thesis by (simp add: treeOf.simps(2))
  next
    case (IntegerType i)
    with Suc.prems show ?thesis by (simp add: treeOf.simps(2))
  next
    case (InteropType h)
    with Suc.prems show ?thesis by (simp add: treeOf.simps(2))
  qed
qed

lemma treeOf_mono: "treeOf n st v = Some t \<Longrightarrow> treeOf (n + k) st v = Some t"
  by (induction k) (simp_all add: treeOf_Suc)

lemma treeOf_exists:
  "withinDepth st k v \<Longrightarrow> noInterop st v \<Longrightarrow> \<exists>t. treeOf (Suc k) st v = Some t"
proof (induction k arbitrary: v)
  case 0
  then have none: "\<forall>x. \<not> child st v x" by (simp add: withinDepth_0)
  show ?case
  proof (cases v)
    case (ArrayType a)
    with none have "jsArrays st a = []" by (cases "jsArrays st a") (auto simp: child.simps)
    with ArrayType show ?thesis by (simp add: treeOf.simps(2))
  next
    case (StructType a)
    with none have "jsArrays st a = []" by (cases "jsArrays st a") (auto simp: child.simps)
    with StructType show ?thesis by (simp add: treeOf.simps(2))
  next
    case (MapType m)
    with none have "jsMaps st m = []" by (cases "jsMaps st m") (auto simp: child.simps)
    with MapType show ?thesis by (simp add: treeOf.simps(2))
  next
    case (InteropType h)
    with "0.prems"(2) show ?thesis using noInterop_self by blast
  qed (simp_all add: treeOf.simps(2))
next
  case (Suc k)
  have kid: "treeOf (Suc k) st x \<noteq> None" if "child st v x" for x
  proof -
    from Suc.prems(1) that have "withinDepth st k x" by (simp add: withinDepth_children)
    from Suc.IH [OF this noInterop_child [OF Suc.prems(2) that]] show ?thesis by auto
  qed
  show ?case
  proof (cases v)
    case (ArrayType a)
    have "\<forall>x \<in> set (jsArrays st a). treeOf (Suc k) st x \<noteq> None"
      using kid unfolding ArrayType by (auto intro: child_Array)
    then show ?thesis unfolding ArrayType by (simp add: treeOf.simps(2) those_map_iff)
  next
    case (StructType a)
    have "\<forall>x \<in> set (jsArrays st a). treeOf (Suc k) st x \<noteq> None"
      using kid unfolding StructType by (auto intro: child_Struct)
    then show ?thesis unfolding StructType by (simp add: treeOf.simps(2) those_map_iff)
  next
    case (MapType m)
    have "pairOption (treeOf (Suc k) st (fst e)) (treeOf (Suc k) st (snd e)) \<noteq> None"
      if "e \<in> set (jsMaps st m)" for e
    proof -
      obtain k' v' where ekv: "e = (k', v')" by (cases e)
      from that have "(k', v') \<in> set (jsMaps st m)" unfolding ekv .
      then have "child st (MapType m) k'" "child st (MapType m) v'"
        by (rule child_MapKey, rule child_MapValue)
      with kid obtain a b where "treeOf (Suc k) st k' = Some a" "treeOf (Suc k) st v' = Some b"
        unfolding MapType by fastforce
      then show ?thesis unfolding ekv by (simp add: pairOption_def)
    qed
    then show ?thesis unfolding MapType by (simp add: treeOf.simps(2) those_map_iff)
  next
    case (InteropType h)
    with Suc.prems(2) show ?thesis using noInterop_self by blast
  qed (simp_all add: treeOf.simps(2))
qed


lemma treeOf_child:
  assumes "treeOf n st v = Some t" and "child st v x"
  shows "\<exists>m t'. treeOf m st x = Some t'"
proof (cases n)
  case 0
  with assms(1) show ?thesis by simp
next
  case (Suc m)
  from assms(2) have "treeOf m st x \<noteq> None"
  proof cases
    case (child_Array a)
    with assms(1) show ?thesis unfolding Suc by (auto simp: treeOf.simps(2) those_map_iff)
  next
    case (child_Struct a)
    with assms(1) show ?thesis unfolding Suc by (auto simp: treeOf.simps(2) those_map_iff)
  next
    case (child_MapKey v' m')
    with assms(1) have "pairOption (treeOf m st x) (treeOf m st v') \<noteq> None"
      unfolding Suc by (auto simp: treeOf.simps(2) those_map_iff)
    then show ?thesis by (auto simp: pairOption_def split: option.splits)
  next
    case (child_MapValue k' m')
    with assms(1) have "pairOption (treeOf m st k') (treeOf m st x) \<noteq> None"
      unfolding Suc by (auto simp: treeOf.simps(2) those_map_iff)
    then show ?thesis by (auto simp: pairOption_def split: option.splits)
  qed
  then show ?thesis by auto
qed

lemma treeOf_reach:
  "rtranclp (child st) v x \<Longrightarrow> treeOf n st v = Some t \<Longrightarrow> \<exists>m t'. treeOf m st x = Some t'"
proof (induction rule: rtranclp_induct)
  case base
  then show ?case by blast
next
  case (step y z)
  then show ?case using treeOf_child by blast
qed

lemma treeOf_noInterop: "treeOf n st v = Some t \<Longrightarrow> noInterop st v"
  unfolding noInterop_def
proof (intro allI notI)
  fix h
  assume "treeOf n st v = Some t" and "rtranclp (child st) v (InteropType h)"
  from treeOf_reach [OF this(2,1)] obtain m t' where m: "treeOf m st (InteropType h) = Some t'"
    by blast
  then show False by (cases m) (simp_all add: treeOf.simps(2))
qed

text \<open>
  C1, as the code has it. Let the keys of every Map reachable from \<open>v\<close> have pairwise
  distinct string forms. If \<open>v\<close> has no Interop item and no item deeper than
  \<open>MAX_STRUCT_DEPTH\<close>, and its Map keys are ByteArrays or Integers with non-empty string
  forms, then \<open>v\<close> has a value \<open>t\<close>, and if the wire format of \<open>t\<close> fits
  \<open>MAX_BYTEARRAY_SIZE\<close>, then \<open>serializeStackItem\<close> succeeds (a recursion depth of
  \<open>MAX_STRUCT_DEPTH + 1\<close> or more is enough) and \<open>deserializeStackItem\<close> maps its output
  to \<open>t\<close> with the entries of every Map in ascending order of their keys' string forms:
  the same variants, the same element order in Arrays and Structs, the same key/value
  pairs in Maps. Conversely, whenever \<open>serializeStackItem\<close> succeeds on such a \<open>v\<close>, its
  output is that wire format and is decoded to that value.
\<close>

theorem serialize_deserialize_roundtrip:
  assumes "S < 2 ^ 64" and "distinctKeys st v"
  shows "(withinDepth st D v \<and> noInterop st v \<and> validKeys st v \<longrightarrow>
          (\<exists>t. treeOf (Suc D) st v = Some t \<and>
             (length (wire (canonical t)) \<le> S \<longrightarrow>
                serializeStackItem D S (Suc D + k) st v = Some (Inr (wire (canonical t))) \<and>
                deserializeStackItem (Suc D + k) (wire (canonical t)) =
                  Some (Inr (canonical t))))) \<and>
         (serializeStackItem D S fuel st v = Some (Inr bs) \<longrightarrow>
            (\<exists>t'. treeOf fuel st v = Some t' \<and> bs = wire (canonical t') \<and>
                  deserializeStackItem fuel bs = Some (Inr (canonical t'))))"
proof (intro conjI impI)
  assume a: "withinDepth st D v \<and> noInterop st v \<and> validKeys st v"
  with treeOf_exists obtain t where t: "treeOf (Suc D) st v = Some t" by blast
  have "serializeStackItem D S (Suc D + k) st v = Some (Inr (wire (canonical t))) \<and>
        deserializeStackItem (Suc D + k) (wire (canonical t)) = Some (Inr (canonical t))"
    if l: "length (wire (canonical t)) \<le> S"
  proof -
    from treeOf_mono [OF t] have t': "treeOf (Suc D + k) st v = Some t" .
    from a t' have e: "emitted (Suc D + k) st v = Some (canonical t)"
      using canonical_emitted assms(2) by blast
    from a e l have "serializeStackItem D S (Suc D + k) st v = Some (Inr (wire (canonical t)))"
      by (intro serialize_closed) simp_all
    moreover from deserialize_emitted [OF e l assms(1)]
    have "deserializeStackItem (Suc D + k) (wire (canonical t)) = Some (Inr (canonical t))" .
    ultimately show ?thesis by blast
  qed
  with t show "\<exists>t. treeOf (Suc D) st v = Some t \<and>
             (length (wire (canonical t)) \<le> S \<longrightarrow>
                serializeStackItem D S (Suc D + k) st v = Some (Inr (wire (canonical t))) \<and>
                deserializeStackItem (Suc D + k) (wire (canonical t)) =
                  Some (Inr (canonical t)))" by blast
next
  assume "serializeStackItem D S fuel st v = Some (Inr bs)"
  then have "serializeStackItemInternal S fuel st v [] = Some (Inr bs)"
    by (simp add: serializeStackItem_def split: if_splits)
  then obtain u where u: "emitted fuel st v = Some u" "bs = wire u" "length bs \<le> S"
    unfolding serialize_iff_emitted by blast
  from emitted_canonical [OF u(1) assms(2)] obtain t' where
    t': "treeOf fuel st v = Some t'" "u = canonical t'" by blast
  from deserialize_emitted [OF u(1) _ assms(1)] u(2,3)
  have "deserializeStackItem fuel bs = Some (Inr u)" by blast
  with t' u(2) show "\<exists>t'. treeOf fuel st v = Some t' \<and> bs = wire (canonical t') \<and>
                  deserializeStackItem fuel bs = Some (Inr (canonical t'))" by blast
qed

lemma ab_keys: "distinctKeys abStore v" "validKeys abStore v"
proof -
  have "distinct (map entryKey (jsMaps abStore m))" for m
    by (simp add: abStore_def entryKey_def keyString_def toString_ascii)
  then show "distinctKeys abStore v" by (simp add: distinctKeys_def)
  have "\<forall>e \<in> set (jsMaps abStore m). validKey (fst e)" for m
    by (auto simp: abStore_def validKey_def isKeyType_def keyString_def toString_ascii)
  then show "validKeys abStore v" unfolding validKeys_def by blast
qed

lemma ab_tree:
  "treeOf 2 abStore (MapType 0) =
     Some (VMap [(VByteArray [0x62], VInteger 2), (VByteArray [0x61], VInteger 1)])"
proof -
  have "treeOf (Suc (Suc 0)) abStore (MapType 0) =
     Some (VMap [(VByteArray [0x62], VInteger 2), (VByteArray [0x61], VInteger 1)])"
    by (simp add: treeOf.simps(2) abStore_def pairOption_def)
  then show ?thesis by (simp only: numeral_2_eq_2)
qed

lemma ab_canonical:
  "canonical (VMap [(VByteArray [0x62], VInteger 2), (VByteArray [0x61], VInteger 1)]) =
     VMap [(VByteArray [0x61], VInteger 1), (VByteArray [0x62], VInteger 2)]"
  by (simp add: valKeyString_def toString_ascii)

lemma ab_wire:
  "wire (VMap [(VByteArray [0x61], VInteger 1), (VByteArray [0x62], VInteger 2)]) =
     [0x82, 0x02, 0x00, 0x01, 0x61, 0x02, 0x01, 0x01, 0x00, 0x01, 0x62, 0x02, 0x01, 0x02]"
  by (simp add: varUint_def bigIntToBytes_small)

theorem serialize_deserialize_roundtrip_witness:
  "(1048576 :: nat) < 2 ^ 64 \<and> distinctKeys abStore (MapType 0) \<and>
   withinDepth abStore 1 (MapType 0) \<and> noInterop abStore (MapType 0) \<and>
   validKeys abStore (MapType 0) \<and>
   treeOf 2 abStore (MapType 0) =
     Some (VMap [(VByteArray [0x62], VInteger 2), (VByteArray [0x61], VInteger 1)]) \<and>
   serializeStackItem 1 1048576 2 abStore (MapType 0) =
     Some (Inr [0x82, 0x02, 0x00, 0x01, 0x61, 0x02, 0x01, 0x01, 0x00, 0x01, 0x62, 0x02, 0x01, 0x02]) \<and>
   deserializeStackItem 2
     [0x82, 0x02, 0x00, 0x01, 0x61, 0x02, 0x01, 0x01, 0x00, 0x01, 0x62, 0x02, 0x01, 0x02] =
     Some (Inr (VMap [(VByteArray [0x61], VInteger 1), (VByteArray [0x62], VInteger 2)]))"
proof -
  let ?t = "VMap [(VByteArray [0x62], VInteger 2), (VByteArray [0x61], VInteger 1)]"
  have s: "(1048576 :: nat) < 2 ^ 64" by simp
  have d: "withinDepth abStore 1 (MapType 0)"
    by (simp add: withinDepth.simps(2) abStore_def)
  have n: "noInterop abStore (MapType 0)" by (rule treeOf_noInterop [OF ab_tree])
  have l: "length (wire (canonical ?t)) \<le> 1048576"
    by (simp only: ab_canonical ab_wire) simp
  from serialize_deserialize_roundtrip [OF s ab_keys(1), where D = 1 and k = 0 and fuel = 2 and bs = "[]"]
      d n ab_keys(2)
  obtain t where "treeOf (Suc 1) abStore (MapType 0) = Some t"
    and t: "length (wire (canonical t)) \<le> 1048576 \<longrightarrow>
       serializeStackItem 1 1048576 (Suc 1 + 0) abStore (MapType 0) =
         Some (Inr (wire (canonical t))) \<and>
       deserializeStackItem (Suc 1 + 0) (wire (canonical t)) = Some (Inr (canonical t))"
    by blast
  then have "t = ?t" using ab_tree by (simp only: Suc_1) simp
  with t l have "serializeStackItem 1 1048576 (Suc 1 + 0) abStore (MapType 0) =
         Some (Inr (wire (canonical ?t))) \<and>
       deserializeStackItem (Suc 1 + 0) (wire (canonical ?t)) = Some (Inr (canonical ?t))"
    by blast
  then show ?thesis using s d n ab_keys ab_tree
    by (simp only: ab_canonical ab_wire simp_thms Suc_1 add_0_right)
qed

lemma zero_key_tree:
  "treeOf 2 zeroKeyStore (MapType 0) = Some (VMap [(VInteger 0, VInteger 1)])"
proof -
  have "treeOf (Suc (Suc 0)) zeroKeyStore (MapType 0) = Some (VMap [(VInteger 0, VInteger 1)])"
    by (simp add: treeOf.simps(2) zeroKeyStore_def pairOption_def)
  then show ?thesis by (simp only: numeral_2_eq_2)
qed

lemma zero_key_rejected:
  "serializeStackItem 10 1048576 2 zeroKeyStore (MapType 0) =
     Some (Inl (Rethrown ''Serialize Struct stackItems error'' InvalidKeyType))"
proof -
  have d: "withinDepth zeroKeyStore 10 (MapType 0)"
    by (simp add: eval_nat_numeral withinDepth.simps(2) zeroKeyStore_def)
  have k: "keyString (IntegerType 0) = []"
    by (simp add: keyString_def IntegerType_getByteArray_def bigIntToBytes_def toString_def)
  have "serializeStackItemInternal 1048576 (Suc (Suc 0)) zeroKeyStore (MapType 0) [] =
     Some (Inl (Rethrown ''Serialize Struct stackItems error'' InvalidKeyType))"
    by (simp add: serializeStackItemInternal.simps(2) zeroKeyStore_def k isKeyType_def
        writeUint8_def writeVarUint_def writeBytes_def varUint_def bindE_def rethrow_def
        andThen_def Let_def)
  then have "serializeStackItemInternal 1048576 2 zeroKeyStore (MapType 0) [] =
     Some (Inl (Rethrown ''Serialize Struct stackItems error'' InvalidKeyType))"
    by (simp only: numeral_2_eq_2)
  with d show ?thesis by (simp add: serializeStackItem_def detection_iff_within)
qed

lemma colliding_tree:
  "treeOf 2 collidingStore (MapType 0) =
     Some (VMap [(VByteArray [0xFF], VInteger 1), (VByteArray [0xFE], VInteger 2)])"
proof -
  have "treeOf (Suc (Suc 0)) collidingStore (MapType 0) =
     Some (VMap [(VByteArray [0xFF], VInteger 1), (VByteArray [0xFE], VInteger 2)])"
    by (simp add: treeOf.simps(2) collidingStore_def pairOption_def)
  then show ?thesis by (simp only: numeral_2_eq_2)
qed

lemma colliding_decoded:
  "deserializeStackItem 2
     [0x82, 0x02, 0x00, 0x01, 0xFE, 0x02, 0x01, 0x02, 0x00, 0x01, 0xFE, 0x02, 0x01, 0x02] =
     Some (Inr (VMap [(VByteArray [0xFE], VInteger 2), (VByteArray [0xFE], VInteger 2)]))"
  unfolding wire_colliding [symmetric]
  using deserialize_wire
    [of "VMap [(VByteArray [0xFE], VInteger 2), (VByteArray [0xFE], VInteger 2)]" 2 "[]"]
  by (simp add: deserializeStackItem_def andThen_def depthVal.simps del: wire.simps)

theorem serialize_deserialize_roundtrip_counterexample:
  "withinDepth zeroKeyStore 10 (MapType 0) \<and>
   treeOf 2 zeroKeyStore (MapType 0) = Some (VMap [(VInteger 0, VInteger 1)]) \<and>
   length (wire (VMap [(VInteger 0, VInteger 1)])) \<le> 1048576 \<and>
   serializeStackItem 10 1048576 2 zeroKeyStore (MapType 0) =
     Some (Inl (Rethrown ''Serialize Struct stackItems error'' InvalidKeyType)) \<and>
   treeOf 2 collidingStore (MapType 0) =
     Some (VMap [(VByteArray [0xFF], VInteger 1), (VByteArray [0xFE], VInteger 2)]) \<and>
   serializeStackItem 10 1048576 2 collidingStore (MapType 0) =
     Some (Inr [0x82, 0x02, 0x00, 0x01, 0xFE, 0x02, 0x01, 0x02, 0x00, 0x01, 0xFE, 0x02, 0x01, 0x02]) \<and>
   deserializeStackItem 2
     [0x82, 0x02, 0x00, 0x01, 0xFE, 0x02, 0x01, 0x02, 0x00, 0x01, 0xFE, 0x02, 0x01, 0x02] =
     Some (Inr (VMap [(VByteArray [0xFE], VInteger 2), (VByteArray [0xFE], VInteger 2)]))"
proof (intro conjI)
  show "withinDepth zeroKeyStore 10 (MapType 0)"
    by (simp add: eval_nat_numeral withinDepth.simps(2) zeroKeyStore_def)
  show "length (wire (VMap [(VInteger 0, VInteger 1)])) \<le> 1048576"
    by (simp add: varUint_def bigIntToBytes_def encodeInt_small)
qed (rule zero_key_tree zero_key_rejected colliding_tree colliding2_serialized(1) colliding_decoded)+

end
